theory Spec2Isabelle
  imports Main "HOL-Library.Word" "HOL-Library.Log_Nat"
begin

section \<open>Platform values: strings and numbers\<close>

text \<open>
  A JavaScript string is a sequence of UTF-16 code units. String literals of the
  source are written through \<open>js\<close>, which maps an ASCII literal to its code units.
\<close>

type_synonym jschar = "16 word"
type_synonym jsstring = "jschar list"

definition cu :: "char \<Rightarrow> jschar" where
  "cu c = of_nat (of_char c)"

definition js :: "string \<Rightarrow> jsstring" where
  "js s = map cu s"

text \<open>
  A JavaScript Number is an IEEE 754 binary64 value. \<open>Fin q\<close> is the finite value with
  the exact rational value \<open>q\<close>; \<open>Fin 0\<close> is \<open>+0\<close> and \<open>NegZero\<close> is \<open>-0\<close>.
  Arithmetic computes the exact rational result and rounds it to the nearest
  representable value, ties to even (\<open>round_to_double\<close>).
\<close>

datatype number = NaN | PosInf | NegInf | NegZero | Fin rat

definition pow2 :: "int \<Rightarrow> rat" where
  "pow2 e = (if 0 \<le> e then 2 ^ nat e else 1 / 2 ^ nat (- e))"

definition ilog2 :: "rat \<Rightarrow> int" where
  \<comment> \<open>\<open>\<lfloor>log\<^sub>2 a\<rfloor>\<close> for \<open>a > 0\<close>\<close>
  "ilog2 a = (if 1 \<le> a then bitlen \<lfloor>a\<rfloor> - 1 else - bitlen (\<lceil>1 / a\<rceil> - 1))"

definition round_half_even :: "rat \<Rightarrow> int" where
  "round_half_even x =
     (let f = \<lfloor>x\<rfloor>; d = x - of_int f
      in if d < 1 / 2 then f else if 1 / 2 < d then f + 1
         else if even f then f else f + 1)"

definition signed_zero :: "bool \<Rightarrow> number" where
  "signed_zero neg = (if neg then NegZero else Fin 0)"

definition infinity :: "bool \<Rightarrow> number" where
  "infinity neg = (if neg then NegInf else PosInf)"

definition round_to_double :: "bool \<Rightarrow> rat \<Rightarrow> number" where
  \<comment> \<open>the Number nearest to \<open>(if neg then - a else a)\<close>, for \<open>a \<ge> 0\<close>\<close>
  "round_to_double neg a =
     (if a = 0 then signed_zero neg
      else let e = max (ilog2 a) (- 1022);
               ulp = pow2 (e - 52);
               r = of_int (round_half_even (a / ulp)) * ulp
           in if 2 ^ 1024 \<le> r then infinity neg
              else if r = 0 then signed_zero neg
              else Fin (if neg then - r else r))"

fun is_neg :: "number \<Rightarrow> bool" where
  "is_neg NegInf = True"
| "is_neg NegZero = True"
| "is_neg (Fin q) = (q < 0)"
| "is_neg _ = False"

fun is_inf :: "number \<Rightarrow> bool" where
  "is_inf PosInf = True"
| "is_inf NegInf = True"
| "is_inf _ = False"

fun val :: "number \<Rightarrow> rat" where
  "val (Fin q) = q"
| "val _ = 0"

definition js_mul :: "number \<Rightarrow> number \<Rightarrow> number" where
  \<comment> \<open>the \<open>*\<close> operator on Numbers\<close>
  "js_mul x y =
     (if x = NaN \<or> y = NaN then NaN
      else if is_inf x \<or> is_inf y then
        (if (\<not> is_inf x \<and> val x = 0) \<or> (\<not> is_inf y \<and> val y = 0) then NaN
         else infinity (is_neg x \<noteq> is_neg y))
      else round_to_double (is_neg x \<noteq> is_neg y) (\<bar>val x\<bar> * \<bar>val y\<bar>))"

definition js_add :: "number \<Rightarrow> number \<Rightarrow> number" where
  \<comment> \<open>the \<open>+\<close> operator on Numbers\<close>
  "js_add x y =
     (if x = NaN \<or> y = NaN then NaN
      else if is_inf x then (if is_inf y \<and> x \<noteq> y then NaN else x)
      else if is_inf y then y
      else let s = val x + val y
           in if s = 0 then (if x = NegZero \<and> y = NegZero then NegZero else Fin 0)
              else round_to_double (s < 0) \<bar>s\<bar>)"

subsection \<open>\<open>parseFloat\<close>\<close>

definition is_digit :: "jschar \<Rightarrow> bool" where
  "is_digit c = (0x30 \<le> c \<and> c \<le> 0x39)"

definition digit_val :: "jschar \<Rightarrow> nat" where
  "digit_val c = unat c - 48"

definition digits_val :: "jsstring \<Rightarrow> nat" where
  "digits_val ds = foldl (\<lambda>n c. 10 * n + digit_val c) 0 ds"

definition is_StrWhiteSpaceChar :: "jschar \<Rightarrow> bool" where
  \<comment> \<open>WhiteSpace and LineTerminator, the characters \<open>parseFloat\<close> skips at the start\<close>
  "is_StrWhiteSpaceChar c =
     (c \<in> {0x09, 0x0A, 0x0B, 0x0C, 0x0D, 0x20, 0xA0, 0x1680, 0x2028, 0x2029,
            0x202F, 0x205F, 0x3000, 0xFEFF} \<or> (0x2000 \<le> c \<and> c \<le> 0x200A))"

definition pow10 :: "int \<Rightarrow> rat" where
  "pow10 e = (if 0 \<le> e then 10 ^ nat e else 1 / 10 ^ nat (- e))"

definition exponent_part :: "jsstring \<Rightarrow> int" where
  \<comment> \<open>the value of the ExponentPart at the start of the text, 0 when there is none\<close>
  "exponent_part t =
     (case t of
        [] \<Rightarrow> 0
      | c # r \<Rightarrow>
          if c = cu CHR ''e'' \<or> c = cu CHR ''E'' then
            (case r of
               [] \<Rightarrow> 0
             | d # r' \<Rightarrow>
                 if d = cu CHR ''-'' then
                   (if takeWhile is_digit r' = [] then 0
                    else - int (digits_val (takeWhile is_digit r')))
                 else if d = cu CHR ''+'' then int (digits_val (takeWhile is_digit r'))
                 else int (digits_val (takeWhile is_digit r)))
          else 0)"

definition parseFloat :: "jsstring \<Rightarrow> number" where
  "parseFloat s =
     (let t = dropWhile is_StrWhiteSpaceChar s;
          neg = (t \<noteq> [] \<and> hd t = cu CHR ''-'');
          u = (if t \<noteq> [] \<and> (hd t = cu CHR ''-'' \<or> hd t = cu CHR ''+'') then tl t else t)
      in if take 8 u = js ''Infinity'' then infinity neg
         else
           let ip = takeWhile is_digit u;
               r1 = dropWhile is_digit u;
               has_dot = (r1 \<noteq> [] \<and> hd r1 = cu CHR ''.'');
               fp = (if has_dot then takeWhile is_digit (tl r1) else []);
               r2 = (if has_dot then dropWhile is_digit (tl r1) else r1)
           in if ip = [] \<and> fp = [] then NaN
              else round_to_double neg
                     (of_nat (digits_val (ip @ fp))
                        * pow10 (exponent_part r2 - int (length fp))))"

subsection \<open>Decimal notation of an integer time value\<close>

definition digit_char :: "nat \<Rightarrow> jschar" where
  "digit_char d = of_nat (48 + d)"

fun dec_nat :: "nat \<Rightarrow> jsstring" where
  "dec_nat n = (if n < 10 then [digit_char n]
                else dec_nat (n div 10) @ [digit_char (n mod 10)])"

declare dec_nat.simps [simp del]

definition toString_int :: "int \<Rightarrow> jsstring" where
  \<comment> \<open>\<open>Number.prototype.toString\<close> on an integral Number below \<open>10\<^sup>2\<^sup>1\<close> in magnitude\<close>
  "toString_int i = (if i < 0 then cu CHR ''-'' # dec_nat (nat (- i)) else dec_nat (nat i))"

section \<open>The application: \<open>App.tsx\<close>\<close>

record TimeEntry =
  id' :: jsstring
  date :: jsstring
  companyName :: jsstring
  hours :: number
  hourlyWage :: number
  totalIncome :: number

datatype view = ListView | GraphView | CalendarView

text \<open>
  The state of the component: the five \<open>useState\<close> cells. The three form cells hold
  the text of the inputs and carry the suffix \<open>_field\<close>, since the entry's fields have
  the same names.
\<close>

record App =
  entries :: "TimeEntry list"
  companyName_field :: jsstring
  hours_field :: jsstring
  hourlyWage_field :: jsstring
  activeView :: view

definition split_T_0 :: "jsstring \<Rightarrow> jsstring" where
  \<comment> \<open>\<open>s.split('T')[0]\<close>: the text before the first \<open>T\<close>, all of it when there is none\<close>
  "split_T_0 s = takeWhile (\<lambda>c. c \<noteq> cu CHR ''T'') s"

definition handleSubmit :: "int \<Rightarrow> jsstring \<Rightarrow> App \<Rightarrow> App" where
  \<comment> \<open>\<open>now\<close> is what \<open>Date.now()\<close> returns and \<open>isoString\<close> what \<open>new Date().toISOString()\<close>
      returns during the call\<close>
  "handleSubmit now isoString s =
     (let total = js_mul (parseFloat (hours_field s)) (parseFloat (hourlyWage_field s));
          newEntry = \<lparr> id' = toString_int now,
                       date = split_T_0 isoString,
                       companyName = companyName_field s,
                       hours = parseFloat (hours_field s),
                       hourlyWage = parseFloat (hourlyWage_field s),
                       totalIncome = total \<rparr>
      in s \<lparr> entries := entries s @ [newEntry],
             companyName_field := [],
             hours_field := [],
             hourlyWage_field := [] \<rparr>)"

definition deleteEntry :: "jsstring \<Rightarrow> App \<Rightarrow> App" where
  "deleteEntry i s = s \<lparr> entries := filter (\<lambda>entry. id' entry \<noteq> i) (entries s) \<rparr>"

definition totalIncome_sum :: "TimeEntry list \<Rightarrow> number" where
  \<comment> \<open>the constant \<open>totalIncome\<close> of the component\<close>
  "totalIncome_sum es = foldl (\<lambda>acc entry. js_add acc (totalIncome entry)) (Fin 0) es"

definition totalHours :: "TimeEntry list \<Rightarrow> number" where
  "totalHours es = foldl (\<lambda>acc entry. js_add acc (hours entry)) (Fin 0) es"

subsection \<open>The ledger operations of the specification, in terms of the component\<close>

text \<open>
  \<open>append\<close> (here \<open>append_entry\<close>) is the form filled in (the three \<open>onChange\<close> handlers store the text of
  the inputs) and submitted; \<open>remove\<close> is \<open>deleteEntry\<close>; \<open>list\<close> is the cell
  \<open>entries\<close>; \<open>aggregate\<close> is the pair of the two sums.
\<close>

record append_call =
  arg_companyName :: jsstring
  arg_hours :: jsstring
  arg_hourlyWage :: jsstring
  clock_now :: int
  clock_iso :: jsstring

definition append_entry :: "append_call \<Rightarrow> App \<Rightarrow> App" where
  "append_entry c s =
     handleSubmit (clock_now c) (clock_iso c)
       (s \<lparr> companyName_field := arg_companyName c,
            hours_field := arg_hours c,
            hourlyWage_field := arg_hourlyWage c \<rparr>)"

definition appends :: "append_call list \<Rightarrow> App \<Rightarrow> App" where
  "appends cs s = foldl (\<lambda>s c. append_entry c s) s cs"

definition aggregate :: "App \<Rightarrow> number \<times> number" where
  \<comment> \<open>\<open>(totalHours, totalIncome)\<close>\<close>
  "aggregate s = (totalHours (entries s), totalIncome_sum (entries s))"

definition new_entry :: "append_call \<Rightarrow> TimeEntry" where
  \<comment> \<open>the entry that \<open>append_entry\<close> creates, for stating what it stores\<close>
  "new_entry c =
     \<lparr> id' = toString_int (clock_now c),
       date = split_T_0 (clock_iso c),
       companyName = arg_companyName c,
       hours = parseFloat (arg_hours c),
       hourlyWage = parseFloat (arg_hourlyWage c),
       totalIncome = js_mul (parseFloat (arg_hours c)) (parseFloat (arg_hourlyWage c)) \<rparr>"

definition remove_first :: "jsstring \<Rightarrow> TimeEntry list \<Rightarrow> TimeEntry list" where
  \<comment> \<open>the specification's wording of \<open>remove\<close>: drop the first entry whose id matches\<close>
  "remove_first i es =
     takeWhile (\<lambda>entry. id' entry \<noteq> i) es @ drop 1 (dropWhile (\<lambda>entry. id' entry \<noteq> i) es)"

section \<open>JSON text, as \<open>JSON.stringify\<close> writes it and \<open>JSON.parse\<close> reads it\<close>

subsection \<open>Number to text: \<open>Number::toString\<close>\<close>

definition ilog10 :: "rat \<Rightarrow> int" where
  \<comment> \<open>\<open>\<lfloor>log\<^sub>1\<^sub>0 a\<rfloor>\<close> for \<open>a > 0\<close>\<close>
  "ilog10 a = (if 1 \<le> a then int (floorlog 10 (nat \<lfloor>a\<rfloor>)) - 1
               else - int (floorlog 10 (nat (\<lceil>1 / a\<rceil> - 1))))"

definition nearer :: "rat \<Rightarrow> rat \<Rightarrow> nat \<Rightarrow> bool" where
  \<comment> \<open>of the neighbours \<open>lo * p\<close> and \<open>(lo + 1) * p\<close> of \<open>a\<close>, is the lower one the choice:
      it is closer, or as close and even\<close>
  "nearer a p lo =
     (let dl = a - of_nat lo * p; dh = of_nat (Suc lo) * p - a
      in dl < dh \<or> (dl = dh \<and> even lo))"

definition digits_at :: "rat \<Rightarrow> nat \<Rightarrow> nat option" where
  \<comment> \<open>the \<open>s\<close> with \<open>s * 10\<^sup>n\<^sup>-\<^sup>k\<close> rounding to \<open>a\<close>, where \<open>n = ilog10 a + 1\<close>, closest to \<open>a\<close>;
      \<open>s = 10\<^sup>k\<close> stands for the digit \<open>1\<close> at the next exponent\<close>
  "digits_at a k =
     (let p = pow10 (ilog10 a + 1 - int k);
          lo = nat \<lfloor>a / p\<rfloor>;
          ok_lo = (round_to_double False (of_nat lo * p) = Fin a);
          ok_hi = (round_to_double False (of_nat (Suc lo) * p) = Fin a)
      in if ok_lo \<and> (\<not> ok_hi \<or> nearer a p lo) then Some lo
         else if ok_hi then Some (Suc lo)
         else None)"

fun shortest :: "nat \<Rightarrow> nat \<Rightarrow> rat \<Rightarrow> nat \<times> nat" where
  \<comment> \<open>the least number of digits \<open>k\<close>, with its \<open>s\<close>; 17 digits always identify a Number,
      so the search from 1 ends there\<close>
  "shortest 0 k a =
     (let p = pow10 (ilog10 a + 1 - int k); lo = nat \<lfloor>a / p\<rfloor>
      in (k, if nearer a p lo then lo else Suc lo))"
| "shortest (Suc fuel) k a =
     (case digits_at a k of
        Some s \<Rightarrow> (k, s)
      | None \<Rightarrow> shortest fuel (Suc k) a)"

definition zeros :: "nat \<Rightarrow> jsstring" where
  "zeros m = replicate m (cu CHR ''0'')"

definition exponent_text :: "int \<Rightarrow> jsstring" where
  "exponent_text e = cu CHR ''e'' # (if e < 0 then cu CHR ''-'' else cu CHR ''+'') # dec_nat (nat \<bar>e\<bar>)"

definition format_digits :: "nat \<Rightarrow> nat \<Rightarrow> int \<Rightarrow> jsstring" where
  \<comment> \<open>the notation of \<open>s * 10\<^sup>n\<^sup>-\<^sup>k\<close>, where \<open>s\<close> has the \<open>k\<close> digits \<open>ds\<close>\<close>
  "format_digits k s n =
     (let ds = dec_nat s in
      if int k \<le> n \<and> n \<le> 21 then ds @ zeros (nat (n - int k))
      else if 0 < n \<and> n \<le> 21 then take (nat n) ds @ cu CHR ''.'' # drop (nat n) ds
      else if - 6 < n \<and> n \<le> 0 then js ''0.'' @ zeros (nat (- n)) @ ds
      else if k = 1 then ds @ exponent_text (n - 1)
      else hd ds # cu CHR ''.'' # tl ds @ exponent_text (n - 1))"

definition toString_pos :: "rat \<Rightarrow> jsstring" where
  \<comment> \<open>for a finite Number \<open>a > 0\<close>\<close>
  "toString_pos a =
     (let (k, s) = shortest 16 1 a; n = ilog10 a + 1
      in if s = 10 ^ k then format_digits 1 1 (n + 1) else format_digits k s n)"

fun Number_toString :: "number \<Rightarrow> jsstring" where
  "Number_toString NaN = js ''NaN''"
| "Number_toString PosInf = js ''Infinity''"
| "Number_toString NegInf = js ''-Infinity''"
| "Number_toString NegZero = js ''0''"
| "Number_toString (Fin q) =
     (if q = 0 then js ''0''
      else if q < 0 then cu CHR ''-'' # toString_pos (- q)
      else toString_pos q)"

subsection \<open>Text of a string: \<open>QuoteJSONString\<close>\<close>

definition hex_digit :: "nat \<Rightarrow> jschar" where
  "hex_digit d = (if d < 10 then of_nat (48 + d) else of_nat (87 + d))"

definition unicode_escape :: "jschar \<Rightarrow> jsstring" where
  \<comment> \<open>\<open>\uXXXX\<close> with four lowercase hexadecimal digits\<close>
  "unicode_escape c =
     (let n = unat c
      in [cu CHR 0x5C, cu CHR ''u'', hex_digit (n div 4096), hex_digit (n div 256 mod 16),
          hex_digit (n div 16 mod 16), hex_digit (n mod 16)])"

definition is_high_surrogate :: "jschar \<Rightarrow> bool" where
  "is_high_surrogate c = (0xD800 \<le> c \<and> c \<le> 0xDBFF)"

definition is_low_surrogate :: "jschar \<Rightarrow> bool" where
  "is_low_surrogate c = (0xDC00 \<le> c \<and> c \<le> 0xDFFF)"

definition quote_unit :: "jschar \<Rightarrow> jsstring" where
  \<comment> \<open>a code unit that is not a surrogate\<close>
  "quote_unit c =
     (if c = 0x08 then [cu CHR 0x5C, cu CHR ''b'']
      else if c = 0x09 then [cu CHR 0x5C, cu CHR ''t'']
      else if c = 0x0A then [cu CHR 0x5C, cu CHR ''n'']
      else if c = 0x0C then [cu CHR 0x5C, cu CHR ''f'']
      else if c = 0x0D then [cu CHR 0x5C, cu CHR ''r'']
      else if c = 0x22 then [cu CHR 0x5C, cu CHR 0x22]
      else if c = 0x5C then [cu CHR 0x5C, cu CHR 0x5C]
      else if c < 0x20 then unicode_escape c
      else [c])"

fun quote_units :: "jsstring \<Rightarrow> jsstring" where
  \<comment> \<open>a surrogate pair is kept, a lone surrogate is escaped\<close>
  "quote_units [] = []"
| "quote_units [c] =
     (if is_high_surrogate c \<or> is_low_surrogate c then unicode_escape c else quote_unit c)"
| "quote_units (c # d # cs) =
     (if is_high_surrogate c then
        (if is_low_surrogate d then c # d # quote_units cs
         else unicode_escape c @ quote_units (d # cs))
      else if is_low_surrogate c then unicode_escape c @ quote_units (d # cs)
      else quote_unit c @ quote_units (d # cs))"

definition QuoteJSONString :: "jsstring \<Rightarrow> jsstring" where
  "QuoteJSONString s = cu CHR 0x22 # quote_units s @ [cu CHR 0x22]"

subsection \<open>\<open>JSON.stringify\<close> of the ledger\<close>

definition stringify_number :: "number \<Rightarrow> jsstring" where
  \<comment> \<open>a Number that is not finite is written as \<open>null\<close>\<close>
  "stringify_number x =
     (case x of
        NaN \<Rightarrow> js ''null'' | PosInf \<Rightarrow> js ''null'' | NegInf \<Rightarrow> js ''null''
      | _ \<Rightarrow> Number_toString x)"

definition stringify_entry :: "TimeEntry \<Rightarrow> jsstring" where
  \<comment> \<open>the properties in the order of the object literal in \<open>handleSubmit\<close>\<close>
  "stringify_entry e =
     js ''{'' @ QuoteJSONString (js ''id'') @ js '':'' @ QuoteJSONString (id' e)
     @ js '','' @ QuoteJSONString (js ''date'') @ js '':'' @ QuoteJSONString (date e)
     @ js '','' @ QuoteJSONString (js ''companyName'') @ js '':'' @ QuoteJSONString (companyName e)
     @ js '','' @ QuoteJSONString (js ''hours'') @ js '':'' @ stringify_number (hours e)
     @ js '','' @ QuoteJSONString (js ''hourlyWage'') @ js '':'' @ stringify_number (hourlyWage e)
     @ js '','' @ QuoteJSONString (js ''totalIncome'') @ js '':'' @ stringify_number (totalIncome e)
     @ js ''}''"

fun join_comma :: "jsstring list \<Rightarrow> jsstring" where
  "join_comma [] = []"
| "join_comma [x] = x"
| "join_comma (x # y # ys) = x @ cu CHR '','' # join_comma (y # ys)"

definition JSON_stringify :: "TimeEntry list \<Rightarrow> jsstring" where
  \<comment> \<open>\<open>JSON.stringify(entries)\<close>\<close>
  "JSON_stringify es = js ''['' @ join_comma (map stringify_entry es) @ js '']''"

subsection \<open>\<open>JSON.parse\<close>\<close>

datatype json =
    JNull
  | JBool bool
  | JNumber number
  | JString jsstring
  | JArray "json list"
  | JObject "(jsstring \<times> json) list"

datatype 'a parse = Parsed 'a | Malformed | Starved

definition is_ws :: "jschar \<Rightarrow> bool" where
  \<comment> \<open>JSON white space: tab, line feed, carriage return, space\<close>
  "is_ws c = (c = 0x09 \<or> c = 0x0A \<or> c = 0x0D \<or> c = 0x20)"

definition skip_ws :: "jsstring \<Rightarrow> jsstring" where
  "skip_ws s = dropWhile is_ws s"

definition hex_val :: "jschar \<Rightarrow> nat option" where
  "hex_val c =
     (if 0x30 \<le> c \<and> c \<le> 0x39 then Some (unat c - 48)
      else if 0x61 \<le> c \<and> c \<le> 0x66 then Some (unat c - 87)
      else if 0x41 \<le> c \<and> c \<le> 0x46 then Some (unat c - 55)
      else None)"

definition simple_escape :: "jschar \<Rightarrow> jschar option" where
  "simple_escape c =
     (if c = cu CHR 0x22 then Some 0x22
      else if c = cu CHR 0x5C then Some 0x5C
      else if c = cu CHR ''/'' then Some 0x2F
      else if c = cu CHR ''b'' then Some 0x08
      else if c = cu CHR ''f'' then Some 0x0C
      else if c = cu CHR ''n'' then Some 0x0A
      else if c = cu CHR ''r'' then Some 0x0D
      else if c = cu CHR ''t'' then Some 0x09
      else None)"

fun parse_chars :: "jsstring \<Rightarrow> (jsstring \<times> jsstring) option" where
  \<comment> \<open>after the opening quote: the string's value and the text after the closing quote\<close>
  "parse_chars [] = None"
| "parse_chars (c # cs) =
     (if c = cu CHR 0x22 then Some ([], cs)
      else if c = cu CHR 0x5C then
        (case cs of
           [] \<Rightarrow> None
         | e # es \<Rightarrow>
             if e = cu CHR ''u'' then
               (case es of
                  h1 # h2 # h3 # h4 # r \<Rightarrow>
                    (case (hex_val h1, hex_val h2, hex_val h3, hex_val h4) of
                       (Some a, Some b, Some c', Some d) \<Rightarrow>
                         map_option (\<lambda>(v, t). (of_nat (4096 * a + 256 * b + 16 * c' + d) # v, t))
                           (parse_chars r)
                     | _ \<Rightarrow> None)
                | _ \<Rightarrow> None)
             else
               (case simple_escape e of
                  None \<Rightarrow> None
                | Some x \<Rightarrow> map_option (\<lambda>(v, t). (x # v, t)) (parse_chars es)))
      else if c < 0x20 then None
      else map_option (\<lambda>(v, t). (c # v, t)) (parse_chars cs))"

definition number_int :: "jsstring \<Rightarrow> jsstring \<times> jsstring" where
  \<comment> \<open>\<open>0 | [1-9][0-9]*\<close>: the digits and the text after them\<close>
  "number_int u =
     (if u \<noteq> [] \<and> hd u = cu CHR ''0'' then ([cu CHR ''0''], tl u)
      else (takeWhile is_digit u, dropWhile is_digit u))"

definition number_frac :: "jsstring \<Rightarrow> (jsstring \<times> jsstring) option" where
  \<comment> \<open>\<open>(. [0-9]+)?\<close>: the digits of the fraction, none when there is no point\<close>
  "number_frac r =
     (if r \<noteq> [] \<and> hd r = cu CHR ''.'' then
        (if takeWhile is_digit (tl r) = [] then None
         else Some (takeWhile is_digit (tl r), dropWhile is_digit (tl r)))
      else Some ([], r))"

definition number_exp :: "jsstring \<Rightarrow> (int \<times> jsstring) option" where
  \<comment> \<open>\<open>([eE] [+-]? [0-9]+)?\<close>: the exponent, 0 when there is none\<close>
  "number_exp r =
     (if r \<noteq> [] \<and> (hd r = cu CHR ''e'' \<or> hd r = cu CHR ''E'') then
        (let r' = tl r;
             eneg = (r' \<noteq> [] \<and> hd r' = cu CHR ''-'');
             ds = (if r' \<noteq> [] \<and> (hd r' = cu CHR ''-'' \<or> hd r' = cu CHR ''+'') then tl r' else r')
         in if takeWhile is_digit ds = [] then None
            else Some (if eneg then - int (digits_val (takeWhile is_digit ds))
                       else int (digits_val (takeWhile is_digit ds)),
                       dropWhile is_digit ds))
      else Some (0, r))"

definition parse_number :: "jsstring \<Rightarrow> (number \<times> jsstring) option" where
  \<comment> \<open>\<open>-? (0 | [1-9][0-9]*) (. [0-9]+)? ([eE] [+-]? [0-9]+)?\<close> and the Number of its value\<close>
  "parse_number s =
     (let neg = (s \<noteq> [] \<and> hd s = cu CHR ''-'')
      in case number_int (if neg then tl s else s) of
           (ip, r1) \<Rightarrow>
             if ip = [] then None
             else
               (case number_frac r1 of
                  None \<Rightarrow> None
                | Some (fp, r2) \<Rightarrow>
                    (case number_exp r2 of
                       None \<Rightarrow> None
                     | Some (ex, r3) \<Rightarrow>
                         Some (round_to_double neg
                                 (of_nat (digits_val (ip @ fp)) * pow10 (ex - int (length fp))),
                               r3))))"

definition set_property :: "jsstring \<Rightarrow> json \<Rightarrow> (jsstring \<times> json) list \<Rightarrow> (jsstring \<times> json) list" where
  \<comment> \<open>a repeated key keeps its place and takes the later value\<close>
  "set_property k v ps =
     (if k \<in> fst ` set ps then map (\<lambda>(k', v'). if k' = k then (k', v) else (k', v')) ps
      else ps @ [(k, v)])"

fun parse_value :: "nat \<Rightarrow> jsstring \<Rightarrow> (json \<times> jsstring) parse"
  and parse_elements :: "nat \<Rightarrow> json list \<Rightarrow> jsstring \<Rightarrow> (json \<times> jsstring) parse"
  and parse_members :: "nat \<Rightarrow> (jsstring \<times> json) list \<Rightarrow> jsstring \<Rightarrow> (json \<times> jsstring) parse"
where
  "parse_value 0 s = Starved"
| "parse_value (Suc n) s =
     (case s of
        [] \<Rightarrow> Malformed
      | c # r \<Rightarrow>
          if c = cu CHR ''['' then
            (case skip_ws r of
               [] \<Rightarrow> Malformed
             | d # r' \<Rightarrow> if d = cu CHR '']'' then Parsed (JArray [], r')
                         else parse_elements n [] (d # r'))
          else if c = cu CHR ''{'' then
            (case skip_ws r of
               [] \<Rightarrow> Malformed
             | d # r' \<Rightarrow> if d = cu CHR ''}'' then Parsed (JObject [], r')
                         else parse_members n [] (d # r'))
          else if c = cu CHR 0x22 then
            (case parse_chars r of
               None \<Rightarrow> Malformed
             | Some (v, t) \<Rightarrow> Parsed (JString v, t))
          else if take 4 s = js ''true'' then Parsed (JBool True, drop 4 s)
          else if take 5 s = js ''false'' then Parsed (JBool False, drop 5 s)
          else if take 4 s = js ''null'' then Parsed (JNull, drop 4 s)
          else
            (case parse_number s of
               None \<Rightarrow> Malformed
             | Some (x, t) \<Rightarrow> Parsed (JNumber x, t)))"
| "parse_elements 0 acc s = Starved"
| "parse_elements (Suc n) acc s =
     (case parse_value n s of
        Parsed (v, t) \<Rightarrow>
          (case skip_ws t of
             [] \<Rightarrow> Malformed
           | d # t' \<Rightarrow>
               if d = cu CHR '','' then parse_elements n (acc @ [v]) (skip_ws t')
               else if d = cu CHR '']'' then Parsed (JArray (acc @ [v]), t')
               else Malformed)
      | Malformed \<Rightarrow> Malformed
      | Starved \<Rightarrow> Starved)"
| "parse_members 0 acc s = Starved"
| "parse_members (Suc n) acc s =
     (case s of
        [] \<Rightarrow> Malformed
      | q # r \<Rightarrow>
          if q \<noteq> cu CHR 0x22 then Malformed
          else
            (case parse_chars r of
               None \<Rightarrow> Malformed
             | Some (k, t) \<Rightarrow>
                 (case skip_ws t of
                    [] \<Rightarrow> Malformed
                  | c # t' \<Rightarrow>
                      if c \<noteq> cu CHR '':'' then Malformed
                      else
                        (case parse_value n (skip_ws t') of
                           Parsed (v, u) \<Rightarrow>
                             (case skip_ws u of
                                [] \<Rightarrow> Malformed
                              | d # u' \<Rightarrow>
                                  if d = cu CHR '','' then
                                    parse_members n (set_property k v acc) (skip_ws u')
                                  else if d = cu CHR ''}'' then
                                    Parsed (JObject (set_property k v acc), u')
                                  else Malformed)
                         | Malformed \<Rightarrow> Malformed
                         | Starved \<Rightarrow> Starved))))"

datatype js_error = SyntaxError

definition JSON_parse :: "jsstring \<Rightarrow> js_error + json" where
  \<comment> \<open>the whole text is one value between white space; the fuel bounds the depth of
      the calls, which take two levels for a nesting and one for an element, so twice
      the length of the text is enough\<close>
  "JSON_parse s =
     (case parse_value (Suc (2 * length s)) (skip_ws s) of
        Parsed (v, t) \<Rightarrow> if skip_ws t = [] then Inr v else Inl SyntaxError
      | _ \<Rightarrow> Inl SyntaxError)"

subsection \<open>The ledger as a typed value\<close>

text \<open>
  \<open>JSON.parse\<close> returns any JSON value, and the component uses it unchecked as its
  \<open>TimeEntry[]\<close>. The state of this model holds \<open>TimeEntry\<close> records, so a parsed
  value is taken as the ledger when it is an array of objects that have exactly the six
  properties, written in the order in which the component writes them, with strings and
  Numbers as their values. Any other value is outside the typed state and is reported as
  \<open>Untyped\<close>.
\<close>

definition the_string :: "json \<Rightarrow> jsstring option" where
  "the_string v = (case v of JString s \<Rightarrow> Some s | _ \<Rightarrow> None)"

definition the_number :: "json \<Rightarrow> number option" where
  "the_number v = (case v of JNumber x \<Rightarrow> Some x | _ \<Rightarrow> None)"

definition entry_keys :: "jsstring list" where
  "entry_keys = [js ''id'', js ''date'', js ''companyName'', js ''hours'', js ''hourlyWage'',
                 js ''totalIncome'']"

definition as_TimeEntry :: "json \<Rightarrow> TimeEntry option" where
  "as_TimeEntry v =
     (case v of
        JObject ps \<Rightarrow>
          if map fst ps = entry_keys then
            (case (the_string (snd (ps ! 0)), the_string (snd (ps ! 1)),
                   the_string (snd (ps ! 2)), the_number (snd (ps ! 3)),
                   the_number (snd (ps ! 4)), the_number (snd (ps ! 5))) of
               (Some i, Some d, Some c, Some h, Some w, Some t) \<Rightarrow>
                 Some \<lparr> id' = i, date = d, companyName = c, hours = h, hourlyWage = w,
                        totalIncome = t \<rparr>
             | _ \<Rightarrow> None)
          else None
      | _ \<Rightarrow> None)"

definition as_TimeEntries :: "json \<Rightarrow> TimeEntry list option" where
  "as_TimeEntries v = (case v of JArray vs \<Rightarrow> those (map as_TimeEntry vs) | _ \<Rightarrow> None)"

subsection \<open>Persistent storage and the life cycle of the component\<close>

type_synonym localStorage = "jsstring \<rightharpoonup> jsstring"

definition storage_key :: jsstring where
  "storage_key = js ''timeEntries''"

definition initial_entries :: "localStorage \<Rightarrow> js_error + json" where
  \<comment> \<open>the initializer of the \<open>entries\<close> cell: \<open>saved ? JSON.parse(saved) : []\<close>, where
      \<open>saved\<close> is \<open>null\<close> for an absent key and the empty string is falsy as well\<close>
  "initial_entries st =
     (case st storage_key of
        None \<Rightarrow> Inr (JArray [])
      | Some saved \<Rightarrow> if saved \<noteq> [] then JSON_parse saved else Inr (JArray []))"

datatype construction = Raised js_error | Ledger "TimeEntry list" | Untyped json

definition construct :: "localStorage \<Rightarrow> construction" where
  "construct st =
     (case initial_entries st of
        Inl err \<Rightarrow> Raised err
      | Inr v \<Rightarrow> (case as_TimeEntries v of Some es \<Rightarrow> Ledger es | None \<Rightarrow> Untyped v))"

definition persist :: "TimeEntry list \<Rightarrow> localStorage \<Rightarrow> localStorage" where
  \<comment> \<open>the effect: \<open>localStorage.setItem('timeEntries', JSON.stringify(entries))\<close>\<close>
  "persist es st = st (storage_key \<mapsto> JSON_stringify es)"

datatype event =
    ChangeCompanyName jsstring
  | ChangeHours jsstring
  | ChangeHourlyWage jsstring
  | ChangeView view
  | Submit int jsstring
  | Delete jsstring

fun handle :: "event \<Rightarrow> App \<Rightarrow> App" where
  "handle (ChangeCompanyName t) s = s \<lparr> companyName_field := t \<rparr>"
| "handle (ChangeHours t) s = s \<lparr> hours_field := t \<rparr>"
| "handle (ChangeHourlyWage t) s = s \<lparr> hourlyWage_field := t \<rparr>"
| "handle (ChangeView v) s = s \<lparr> activeView := v \<rparr>"
| "handle (Submit now isoString) s = handleSubmit now isoString s"
| "handle (Delete i) s = deleteEntry i s"

fun sets_entries :: "event \<Rightarrow> bool" where
  \<comment> \<open>the handlers that call \<open>setEntries\<close>, each with a new array\<close>
  "sets_entries (Submit now isoString) = True"
| "sets_entries (Delete i) = True"
| "sets_entries _ = False"

record world =
  app :: App
  storage :: localStorage

definition dispatch :: "event \<Rightarrow> world \<Rightarrow> world" where
  \<comment> \<open>one event: the handler runs, the component renders again, and the effect runs when
      \<open>entries\<close> is a new array\<close>
  "dispatch ev w =
     (let s = handle ev (app w)
      in \<lparr> app = s,
           storage = (if sets_entries ev then persist (entries s) (storage w) else storage w) \<rparr>)"

definition run :: "event list \<Rightarrow> world \<Rightarrow> world" where
  "run evs w = foldl (\<lambda>w ev. dispatch ev w) w evs"

definition mount :: "localStorage \<Rightarrow> world option" where
  \<comment> \<open>the first render with a typed ledger, and the effect after it\<close>
  "mount st =
     (case construct st of
        Ledger es \<Rightarrow>
          Some \<lparr> app = \<lparr> entries = es, companyName_field = [], hours_field = [],
                          hourlyWage_field = [], activeView = ListView \<rparr>,
                 storage = persist es st \<rparr>
      | _ \<Rightarrow> None)"

definition is_double :: "number \<Rightarrow> bool" where
  \<comment> \<open>a finite Number: a rational that rounding leaves as it is\<close>
  "is_double x =
     (case x of
        Fin q \<Rightarrow> q = 0 \<or> round_to_double (q < 0) \<bar>q\<bar> = Fin q
      | NegZero \<Rightarrow> True
      | _ \<Rightarrow> False)"

definition reloaded :: "number \<Rightarrow> number" where
  \<comment> \<open>\<open>-0\<close> is written as \<open>0\<close>\<close>
  "reloaded x = (if x = NegZero then Fin 0 else x)"

definition ends_number :: "jsstring \<Rightarrow> bool" where
  \<comment> \<open>a text that cannot continue the notation of a number\<close>
  "ends_number t = (t = [] \<or> (\<not> is_digit (hd t) \<and> hd t \<noteq> cu CHR ''.''
      \<and> hd t \<noteq> cu CHR ''e'' \<and> hd t \<noteq> cu CHR ''E''))"


subsection \<open>What a reload gives back\<close>

definition json_of_number :: "number \<Rightarrow> json" where
  \<comment> \<open>the JSON value that \<open>JSON.stringify\<close> writes for a Number: \<open>null\<close> when it is not
      finite, and \<open>0\<close> for \<open>-0\<close>\<close>
  "json_of_number x =
     (case x of
        NaN \<Rightarrow> JNull | PosInf \<Rightarrow> JNull | NegInf \<Rightarrow> JNull
      | NegZero \<Rightarrow> JNumber (Fin 0)
      | Fin q \<Rightarrow> JNumber (Fin q))"

definition json_of_entry :: "TimeEntry \<Rightarrow> json" where
  "json_of_entry e =
     JObject [(js ''id'', JString (id' e)), (js ''date'', JString (date e)),
              (js ''companyName'', JString (companyName e)),
              (js ''hours'', json_of_number (hours e)),
              (js ''hourlyWage'', json_of_number (hourlyWage e)),
              (js ''totalIncome'', json_of_number (totalIncome e))]"

definition storable :: "number \<Rightarrow> bool" where
  \<comment> \<open>the values of a Number: the finite ones, \<open>NaN\<close> and the two infinities\<close>
  "storable x = (is_double x \<or> x = NaN \<or> x = PosInf \<or> x = NegInf)"

definition storable_entry :: "TimeEntry \<Rightarrow> bool" where
  "storable_entry e = (storable (hours e) \<and> storable (hourlyWage e) \<and> storable (totalIncome e))"

definition finite_entry :: "TimeEntry \<Rightarrow> bool" where
  "finite_entry e = (is_double (hours e) \<and> is_double (hourlyWage e) \<and> is_double (totalIncome e))"

definition reloaded_entry :: "TimeEntry \<Rightarrow> TimeEntry" where
  "reloaded_entry e =
     e \<lparr> hours := reloaded (hours e), hourlyWage := reloaded (hourlyWage e),
         totalIncome := reloaded (totalIncome e) \<rparr>"
subsection \<open>Sample data\<close>

definition acme_call :: append_call where
  "acme_call = \<lparr> arg_companyName = js ''Acme'', arg_hours = js ''4'',
                   arg_hourlyWage = js ''1000'', clock_now = 1730000000000,
                   clock_iso = js ''2024-10-27T03:33:20.000Z'' \<rparr>"

definition beta_call :: append_call where
  "beta_call = \<lparr> arg_companyName = js ''Beta'', arg_hours = js ''2'',
                   arg_hourlyWage = js ''1500'', clock_now = 1730000000001,
                   clock_iso = js ''2024-10-27T03:33:20.001Z'' \<rparr>"

definition fresh_app :: App where
  \<comment> \<open>the component with an empty ledger and empty form\<close>
  "fresh_app = \<lparr> entries = [], companyName_field = [], hours_field = [],
                   hourlyWage_field = [], activeView = ListView \<rparr>"

subsection \<open>Sums and products that need no rounding\<close>

fun exact_sum :: "rat \<Rightarrow> number list \<Rightarrow> bool" where
  \<comment> \<open>the summands are finite and, from \<open>acc\<close> on, every partial sum in order is a Number\<close>
  "exact_sum acc [] = True"
| "exact_sum acc (x # xs) =
     (is_double x \<and> is_double (Fin (acc + val x)) \<and> exact_sum (acc + val x) xs)"

definition exact_product :: "number \<Rightarrow> number \<Rightarrow> bool" where
  \<comment> \<open>the factors are finite and their product is a Number\<close>
  "exact_product x y = (is_double x \<and> is_double y \<and> is_double (Fin (val x * val y)))"

definition big_calls :: "append_call list" where
  \<comment> \<open>hours \<open>2\<^sup>5\<^sup>3\<close>, \<open>1\<close> and \<open>1\<close>\<close>
  "big_calls =
     [acme_call \<lparr> arg_hours := js ''9007199254740992'' \<rparr>,
      acme_call \<lparr> arg_hours := js ''1'', clock_now := 1730000000001 \<rparr>,
      acme_call \<lparr> arg_hours := js ''1'', clock_now := 1730000000002 \<rparr>]"


definition nan_call :: append_call where
  \<comment> \<open>hours that are no number\<close>
  "nan_call = acme_call \<lparr> arg_hours := js ''abc'' \<rparr>"
section \<open>Basic facts\<close>

lemma entries_append: "entries (append_entry c s) = entries s @ [new_entry c]"
  by (simp add: append_entry_def handleSubmit_def new_entry_def Let_def)

lemma entries_appends: "entries (appends cs s) = entries s @ map new_entry cs"
  unfolding appends_def
  by (induction cs arbitrary: s) (simp_all add: entries_append)

lemma entries_deleteEntry:
  "entries (deleteEntry i s) = filter (\<lambda>entry. id' entry \<noteq> i) (entries s)"
  by (simp add: deleteEntry_def)

lemma id_new_entry: "id' (new_entry c) = toString_int (clock_now c)"
  by (simp add: new_entry_def)

subsection \<open>Arithmetic with \<open>NaN\<close>, and the decimal notation of ids\<close>

lemma js_add_NaN [simp]: "js_add NaN y = NaN" "js_add x NaN = NaN"
  by (simp_all add: js_add_def)

lemma js_mul_NaN [simp]: "js_mul NaN y = NaN" "js_mul x NaN = NaN"
  by (simp_all add: js_mul_def)



lemma digits_val_snoc: "digits_val (ds @ [c]) = 10 * digits_val ds + digit_val c"
  by (simp add: digits_val_def)

lemma unat_digit_char: "d < 10 \<Longrightarrow> unat (digit_char d) = 48 + d"
  unfolding digit_char_def by (subst unat_of_nat) simp

lemma digit_val_of_nat: "d < 10 \<Longrightarrow> digit_val (digit_char d) = d"
  by (simp add: digit_val_def unat_digit_char)

lemma digits_val_dec_nat: "digits_val (dec_nat n) = n"
proof (induction n rule: dec_nat.induct)
  case (1 n)
  show ?case
  proof (cases "n < 10")
    case True
    then show ?thesis
      using digits_val_snoc [of "[]"] by (simp add: dec_nat.simps [of n] digit_val_of_nat digits_val_def)
  next
    case False
    with 1 have "digits_val (dec_nat (n div 10)) = n div 10" by simp
    with False show ?thesis
      by (simp add: dec_nat.simps [of n] digits_val_snoc digit_val_of_nat)
  qed
qed

lemma is_digit_of_nat: "d < 10 \<Longrightarrow> is_digit (digit_char d)"
  by (simp add: is_digit_def word_le_nat_alt unat_digit_char)

lemma dec_nat_digits: "c \<in> set (dec_nat n) \<Longrightarrow> is_digit c"
proof (induction n rule: dec_nat.induct)
  case (1 n)
  show ?case
  proof (cases "n < 10")
    case True
    with 1(2) show ?thesis by (auto simp: dec_nat.simps [of n] is_digit_of_nat)
  next
    case False
    with 1 show ?thesis by (auto simp: dec_nat.simps [of n] is_digit_of_nat)
  qed
qed

lemma dec_nat_not_Nil: "dec_nat n \<noteq> []"
  by (simp add: dec_nat.simps [of n])

lemma not_digit_minus: "\<not> is_digit (cu CHR ''-'')"
  by (simp add: is_digit_def cu_def)

lemma toString_int_inject: "toString_int a = toString_int b \<Longrightarrow> a = b"
proof -
  assume eq: "toString_int a = toString_int b"
  have hd_digit: "hd (dec_nat n) \<noteq> cu CHR ''-''" for n
    using dec_nat_digits [of "hd (dec_nat n)" n] dec_nat_not_Nil [of n] not_digit_minus
    by auto
  have nat_eq: "dec_nat m = dec_nat n \<Longrightarrow> m = n" for m n
    using digits_val_dec_nat by metis
  show ?thesis
  proof (cases "a < 0")
    case an: True
    show ?thesis
    proof (cases "b < 0")
      case True
      with an eq have "nat (- a) = nat (- b)" by (auto simp: toString_int_def dest: nat_eq)
      with an True show ?thesis by simp
    next
      case False
      with an eq have "cu CHR ''-'' # dec_nat (nat (- a)) = dec_nat (nat b)"
        by (simp add: toString_int_def)
      then have "hd (dec_nat (nat b)) = cu CHR ''-''" by (metis list.sel(1))
      with hd_digit show ?thesis by blast
    qed
  next
    case ap: False
    show ?thesis
    proof (cases "b < 0")
      case True
      with ap eq have "dec_nat (nat a) = cu CHR ''-'' # dec_nat (nat (- b))"
        by (simp add: toString_int_def)
      then have "hd (dec_nat (nat a)) = cu CHR ''-''" by (metis list.sel(1))
      with hd_digit show ?thesis by blast
    next
      case False
      with ap eq have "nat a = nat b" by (auto simp: toString_int_def dest: nat_eq)
      with ap False show ?thesis by simp
    qed
  qed
qed

section \<open>Removing an entry\<close>

text \<open>
  C3. After \<open>remove(id)\<close> the list holds no entry with that id; and when no entry had
  that id, the list is unchanged, in contents and in length.
\<close>

theorem remove_then_list:
  "i \<notin> set (map id' (entries (deleteEntry i s))) \<and>
   (i \<notin> set (map id' (entries s)) \<longrightarrow>
      entries (deleteEntry i s) = entries s \<and>
      length (entries (deleteEntry i s)) = length (entries s))"
proof -
  have gone: "i \<notin> set (map id' (entries (deleteEntry i s)))"
    by (auto simp: entries_deleteEntry)
  have same: "entries (deleteEntry i s) = entries s" if "i \<notin> set (map id' (entries s))"
  proof -
    from that have "\<forall>entry \<in> set (entries s). id' entry \<noteq> i" by auto
    then show ?thesis by (simp add: entries_deleteEntry)
  qed
  from gone same show ?thesis by simp
qed

theorem remove_then_list_witness:
  "toString_int 5 \<notin> set (map id' (entries (append_entry acme_call fresh_app))) \<and>
   entries (deleteEntry (toString_int 5) (append_entry acme_call fresh_app))
     = entries (append_entry acme_call fresh_app)"
proof -
  have ne: "toString_int 5 \<noteq> toString_int 1730000000000"
    by (simp add: toString_int_def dec_nat.simps digit_char_def)
  then have absent: "toString_int 5 \<notin> set (map id' (entries (append_entry acme_call fresh_app)))"
    by (simp add: entries_append id_new_entry acme_call_def fresh_app_def)
  with remove_then_list [of "toString_int 5" "append_entry acme_call fresh_app"]
  show ?thesis by simp
qed

text \<open>
  C10. \<open>remove(id)\<close> keeps the entries with another id as they are and in their order:
  the subsequence of those entries is the same list before and after. \<open>append\<close> keeps
  the entries that were there as the prefix of the new list.
\<close>

theorem others_unchanged:
  "filter (\<lambda>entry. id' entry \<noteq> i) (entries (deleteEntry i s))
     = filter (\<lambda>entry. id' entry \<noteq> i) (entries s) \<and>
   take (length (entries s)) (entries (append_entry c s)) = entries s"
  by (simp add: entries_deleteEntry entries_append)

subsection \<open>Evaluating the sample inputs\<close>

lemma il4: "ilog2 4 = 2" "ilog2 1000 = 9" "ilog2 4000 = 11"
  by (simp_all add: ilog2_def compute_bitlen)
lemma r4: "round_to_double False 4 = Fin 4" "round_to_double False 1000 = Fin 1000"
   "round_to_double False 4000 = Fin 4000"
  by (simp_all add: round_to_double_def il4 pow2_def round_half_even_def Let_def)
lemmas parse_defs = parseFloat_def js_def cu_def is_StrWhiteSpaceChar_def is_digit_def digits_val_def digit_val_def exponent_part_def pow10_def Let_def
lemma p4: "parseFloat (js ''4'') = Fin 4"
  by (simp add: parse_defs r4)
lemma p1000: "parseFloat (js ''1000'') = Fin 1000"
  by (simp add: parse_defs r4)
lemma m4: "js_mul (Fin 4) (Fin 1000) = Fin 4000"
  by (simp add: js_mul_def r4)
lemma a4: "js_add (Fin 0) (Fin 4) = Fin 4" "js_add (Fin 0) (Fin 4000) = Fin 4000"
  by (simp_all add: js_add_def r4)

section \<open>Appending entries and the aggregates\<close>

lemma totalHours_appends:
  "totalHours (map new_entry cs) = foldl js_add (Fin 0) (map (\<lambda>c. parseFloat (arg_hours c)) cs)"
  by (simp add: totalHours_def foldl_map new_entry_def)

lemma totalIncome_sum_appends:
  "totalIncome_sum (map new_entry cs)
     = foldl js_add (Fin 0)
         (map (\<lambda>c. js_mul (parseFloat (arg_hours c)) (parseFloat (arg_hourlyWage c))) cs)"
  by (simp add: totalIncome_sum_def foldl_map new_entry_def)

text \<open>
  C8. \<open>append\<close> puts one new entry at the end of the sequence; its \<open>totalIncome\<close> is the
  product of the parsed hours and wage, which are its \<open>hours\<close> and \<open>hourlyWage\<close>.
  With \<open>"Acme"\<close>, \<open>4\<close> and \<open>1000\<close> on an empty ledger, at any clock reading, the entry
  has \<open>totalIncome = 4000\<close> and the aggregates are \<open>4\<close> and \<open>4000\<close>.
\<close>

theorem append_at_end:
  "(\<exists>e. entries (append_entry c s) = entries s @ [e] \<and>
        companyName e = arg_companyName c \<and>
        hours e = parseFloat (arg_hours c) \<and>
        hourlyWage e = parseFloat (arg_hourlyWage c) \<and>
        totalIncome e = js_mul (hours e) (hourlyWage e)) \<and>
   map totalIncome
     (entries (append_entry
        (c \<lparr> arg_companyName := js ''Acme'', arg_hours := js ''4'',
              arg_hourlyWage := js ''1000'' \<rparr>)
        (s \<lparr> entries := [] \<rparr>))) = [Fin 4000] \<and>
   aggregate (append_entry
        (c \<lparr> arg_companyName := js ''Acme'', arg_hours := js ''4'',
              arg_hourlyWage := js ''1000'' \<rparr>)
        (s \<lparr> entries := [] \<rparr>)) = (Fin 4, Fin 4000)"
proof -
  let ?c = "c \<lparr> arg_companyName := js ''Acme'', arg_hours := js ''4'',
                  arg_hourlyWage := js ''1000'' \<rparr>"
  have general: "\<exists>e. entries (append_entry c s) = entries s @ [e] \<and>
        companyName e = arg_companyName c \<and>
        hours e = parseFloat (arg_hours c) \<and>
        hourlyWage e = parseFloat (arg_hourlyWage c) \<and>
        totalIncome e = js_mul (hours e) (hourlyWage e)"
    by (rule exI [of _ "new_entry c"]) (simp add: entries_append new_entry_def)
  have income: "totalIncome (new_entry ?c) = Fin 4000"
    by (simp add: new_entry_def p4 p1000 m4)
  have hrs: "hours (new_entry ?c) = Fin 4"
    by (simp add: new_entry_def p4)
  have ents: "entries (append_entry ?c (s \<lparr> entries := [] \<rparr>)) = [new_entry ?c]"
    by (simp add: entries_append)
  have agg: "aggregate (append_entry ?c (s \<lparr> entries := [] \<rparr>)) = (Fin 4, Fin 4000)"
    unfolding aggregate_def ents
    by (simp add: totalHours_def totalIncome_sum_def income hrs a4)
  from general income ents agg show ?thesis by simp
qed

section \<open>Input that does not parse\<close>





section \<open>Removing by id, and the ids that \<open>append\<close> produces\<close>

lemma remove_first_distinct:
  "distinct (map id' es) \<Longrightarrow> filter (\<lambda>entry. id' entry \<noteq> i) es = remove_first i es"
proof (induction es)
  case Nil
  then show ?case by (simp add: remove_first_def)
next
  case (Cons e es)
  show ?case
  proof (cases "id' e = i")
    case True
    from Cons.prems have "id' e \<notin> id' ` set es" by simp
    with True have "\<forall>x \<in> set es. id' x \<noteq> i" by (metis imageI)
    then have "filter (\<lambda>entry. id' entry \<noteq> i) es = es" by simp
    with True show ?thesis by (simp add: remove_first_def)
  next
    case False
    with Cons show ?thesis by (simp add: remove_first_def)
  qed
qed

text \<open>
  C2, as the code has it. \<open>deleteEntry\<close> filters: it removes every entry whose id
  matches. In a ledger whose ids are distinct that is the removal of the first, and only,
  matching entry; and when no entry matches, the sequence is unchanged.
\<close>

theorem remove_matching:
  "(distinct (map id' (entries s)) \<longrightarrow>
      entries (deleteEntry i s) = remove_first i (entries s)) \<and>
   (i \<notin> id' ` set (entries s) \<longrightarrow> entries (deleteEntry i s) = entries s) \<and>
   i \<notin> id' ` set (entries (deleteEntry i s))"
proof -
  have "entries (deleteEntry i s) = entries s" if "i \<notin> id' ` set (entries s)"
  proof -
    from that have "\<forall>x \<in> set (entries s). id' x \<noteq> i" by auto
    then show ?thesis by (simp add: entries_deleteEntry)
  qed
  moreover have "i \<notin> id' ` set (entries (deleteEntry i s))"
    by (auto simp: entries_deleteEntry)
  ultimately show ?thesis
    by (simp add: entries_deleteEntry remove_first_distinct)
qed

theorem remove_matching_witness:
  "distinct (map id' (entries (appends [acme_call, beta_call] fresh_app))) \<and>
   toString_int 7 \<notin> id' ` set (entries (appends [acme_call, beta_call] fresh_app)) \<and>
   entries (deleteEntry (toString_int (clock_now acme_call))
              (appends [acme_call, beta_call] fresh_app)) = [new_entry beta_call] \<and>
   entries (deleteEntry (toString_int 7) (appends [acme_call, beta_call] fresh_app))
     = [new_entry acme_call, new_entry beta_call]"
proof -
  let ?s = "appends [acme_call, beta_call] fresh_app"
  have ents: "entries ?s = [new_entry acme_call, new_entry beta_call]"
    by (simp add: entries_appends fresh_app_def)
  have ne: "toString_int 1730000000000 \<noteq> toString_int 1730000000001"
           "toString_int 7 \<noteq> toString_int 1730000000000"
           "toString_int 7 \<noteq> toString_int 1730000000001"
    by (auto dest: toString_int_inject)
  have d: "distinct (map id' (entries ?s))"
    unfolding ents by (simp add: id_new_entry acme_call_def beta_call_def ne)
  have a: "toString_int 7 \<notin> id' ` set (entries ?s)"
    unfolding ents by (simp add: id_new_entry acme_call_def beta_call_def ne)
  have r: "remove_first (toString_int (clock_now acme_call)) (entries ?s) = [new_entry beta_call]"
    unfolding ents by (simp add: remove_first_def id_new_entry)
  have t1: "entries (deleteEntry (toString_int (clock_now acme_call)) ?s)
              = remove_first (toString_int (clock_now acme_call)) (entries ?s)"
    using remove_matching [of ?s "toString_int (clock_now acme_call)"] d by blast
  have t2: "entries (deleteEntry (toString_int 7) ?s) = entries ?s"
    using remove_matching [of ?s "toString_int 7"] a by blast
  from t1 r have t1': "entries (deleteEntry (toString_int (clock_now acme_call)) ?s)
              = [new_entry beta_call]"
    by (simp only:)
  from t2 ents have t2': "entries (deleteEntry (toString_int 7) ?s)
              = [new_entry acme_call, new_entry beta_call]"
    by (simp only:)
  from d a t1' t2' show ?thesis by blast
qed

text \<open>
  The wording of C2, removal of the first matching entry only, fails where two entries
  share an id: two calls of \<open>append\<close> at the same clock reading produce such a ledger,
  and \<open>deleteEntry\<close> then removes both entries.
\<close>

theorem remove_first_counterexample:
  "entries (deleteEntry (toString_int 1730000000000)
      (appends [acme_call, beta_call \<lparr> clock_now := 1730000000000 \<rparr>] fresh_app)) = [] \<and>
   remove_first (toString_int 1730000000000)
      (entries (appends [acme_call, beta_call \<lparr> clock_now := 1730000000000 \<rparr>] fresh_app))
     = [new_entry (beta_call \<lparr> clock_now := 1730000000000 \<rparr>)]"
  by (simp add: entries_deleteEntry entries_appends fresh_app_def remove_first_def
        id_new_entry acme_call_def)

text \<open>
  C5, as the code has it. The id is the decimal notation of the clock reading
  \<open>Date.now()\<close>, and that notation is injective. So the ids that a sequence of
  \<open>append\<close> calls produces are distinct when the clock readings of the calls are. All
  ids of the ledger are distinct exactly when, besides, the ids the session started with
  are distinct and none of them is the notation of one of the readings; from an empty
  ledger, distinct readings are enough.
\<close>

theorem ids_distinct_by_clock:
  "(distinct (map clock_now cs) \<longrightarrow>
      distinct (map id' (drop (length (entries s)) (entries (appends cs s))))) \<and>
   (distinct (map id' (entries (appends cs s))) \<longleftrightarrow>
      distinct (map id' (entries s)) \<and> distinct (map clock_now cs) \<and>
      (\<forall>c \<in> set cs. toString_int (clock_now c) \<notin> id' ` set (entries s))) \<and>
   (distinct (map clock_now cs) \<longrightarrow>
      distinct (map id' (entries (appends cs (s \<lparr> entries := [] \<rparr>)))))"
proof -
  have "inj toString_int"
    by (rule injI) (rule toString_int_inject)
  then have "inj_on toString_int (set (map clock_now cs))"
    by (rule inj_on_subset) simp
  then have "distinct (map toString_int (map clock_now cs)) \<longleftrightarrow> distinct (map clock_now cs)"
    by (subst distinct_map) blast
  moreover have "map id' (map new_entry cs) = map toString_int (map clock_now cs)"
    by (simp add: comp_def id_new_entry)
  ultimately have new: "distinct (map id' (map new_entry cs)) \<longleftrightarrow> distinct (map clock_now cs)"
    by (simp only:)
  have "set (map id' (entries s)) \<inter> set (map id' (map new_entry cs)) = {} \<longleftrightarrow>
      (\<forall>c \<in> set cs. toString_int (clock_now c) \<notin> id' ` set (entries s))"
    by (auto simp: id_new_entry) (metis imageI)
  with new have whole: "distinct (map id' (entries s @ map new_entry cs)) \<longleftrightarrow>
      distinct (map id' (entries s)) \<and> distinct (map clock_now cs) \<and>
      (\<forall>c \<in> set cs. toString_int (clock_now c) \<notin> id' ` set (entries s))"
    by (simp only: map_append distinct_append)
  from new whole show ?thesis
    by (simp add: entries_appends)
qed

theorem ids_distinct_by_clock_witness:
  "distinct (map clock_now [acme_call, beta_call]) \<and>
   distinct (map id' (entries (append_entry (acme_call \<lparr> clock_now := 5 \<rparr>) fresh_app))) \<and>
   toString_int (clock_now acme_call)
     \<notin> id' ` set (entries (append_entry (acme_call \<lparr> clock_now := 5 \<rparr>) fresh_app)) \<and>
   toString_int (clock_now beta_call)
     \<notin> id' ` set (entries (append_entry (acme_call \<lparr> clock_now := 5 \<rparr>) fresh_app)) \<and>
   distinct (map id' (entries (appends [acme_call, beta_call]
      (append_entry (acme_call \<lparr> clock_now := 5 \<rparr>) fresh_app)))) \<and>
   distinct (map id' (drop 1 (entries (appends [acme_call, beta_call]
      (append_entry (acme_call \<lparr> clock_now := 5 \<rparr>) fresh_app)))))"
proof -
  let ?s = "append_entry (acme_call \<lparr> clock_now := 5 \<rparr>) fresh_app"
  let ?cs = "[acme_call, beta_call]"
  have ents: "entries ?s = [new_entry (acme_call \<lparr> clock_now := 5 \<rparr>)]"
    by (simp add: entries_append fresh_app_def)
  have d: "distinct (map clock_now ?cs)"
    by (simp add: acme_call_def beta_call_def)
  have old: "distinct (map id' (entries ?s))"
    unfolding ents by simp
  have ne: "toString_int 1730000000000 \<noteq> toString_int 5"
           "toString_int 1730000000001 \<noteq> toString_int 5"
    by (auto dest: toString_int_inject)
  have fresh: "\<forall>c \<in> set ?cs. toString_int (clock_now c) \<notin> id' ` set (entries ?s)"
    unfolding ents by (simp add: id_new_entry acme_call_def beta_call_def ne)
  from d old fresh ids_distinct_by_clock [of ?cs ?s]
  have all: "distinct (map id' (entries (appends ?cs ?s)))" by blast
  from d ids_distinct_by_clock [of ?cs ?s]
  have "distinct (map id' (drop (length (entries ?s)) (entries (appends ?cs ?s))))" by blast
  moreover have "length (entries ?s) = 1" unfolding ents by simp
  ultimately have new: "distinct (map id' (drop 1 (entries (appends ?cs ?s))))"
    by (simp only:)
  from d old fresh all new show ?thesis by simp
qed

text \<open>
  The wording of C5, ids distinct after every sequence of calls, fails for two calls
  within the same millisecond of the clock.
\<close>

theorem ids_distinct_counterexample:
  "\<not> distinct (map id'
       (entries (appends [acme_call, beta_call \<lparr> clock_now := 1730000000000 \<rparr>] fresh_app)))"
  by (simp add: entries_appends fresh_app_def id_new_entry acme_call_def)


lemma unat_of_nat_small: "n < 65536 \<Longrightarrow> unat (of_nat n :: jschar) = n"
  by (subst unat_of_nat) simp

lemma unat_hex_digit: "d < 16 \<Longrightarrow> unat (hex_digit d) = (if d < 10 then 48 + d else 87 + d)"
  unfolding hex_digit_def by (simp only: unat_of_nat_small split: if_splits) simp

lemma unat_jschar_less: "unat (c :: jschar) < 65536"
  using unsigned_less [of c, where ?'a = nat] by simp

lemma hex_digits_value:
  "4096 * (n div 4096) + 256 * (n div 256 mod 16) + 16 * (n div 16 mod 16) + n mod 16 = (n::nat)"
proof -
  define m1 where "m1 = n div 16"
  define m2 where "m2 = m1 div 16"
  define m3 where "m3 = m2 div 16"
  have a: "n div 256 = m2" "n div 4096 = m3"
    by (simp_all add: m1_def m2_def m3_def div_mult2_eq)
  have "n = 16 * m1 + n mod 16" "m1 = 16 * m2 + m1 mod 16" "m2 = 16 * m3 + m2 mod 16"
    by (simp_all add: m1_def m2_def m3_def)
  then show ?thesis
    unfolding a m1_def [symmetric] by linarith
qed

lemma hex_val_hex_digit: "d < 16 \<Longrightarrow> hex_val (hex_digit d) = Some d"
  by (simp add: hex_val_def word_le_nat_alt unat_hex_digit)

lemma cu_eval:
  "cu CHR 0x5C = 0x5C" "cu CHR 0x22 = 0x22" "cu CHR ''u'' = 0x75" "cu CHR ''b'' = 0x62"
  "cu CHR ''f'' = 0x66" "cu CHR ''n'' = 0x6E" "cu CHR ''r'' = 0x72" "cu CHR ''t'' = 0x74"
  "cu CHR ''/'' = 0x2F"
  by (simp_all add: cu_def)

lemma parse_chars_escape4:
  assumes "hex_val h1 = Some a" "hex_val h2 = Some b" "hex_val h3 = Some c'" "hex_val h4 = Some d"
  shows "parse_chars (0x5C # 0x75 # h1 # h2 # h3 # h4 # t)
        = map_option (\<lambda>(v, t). (of_nat (4096 * a + 256 * b + 16 * c' + d) # v, t)) (parse_chars t)"
  using assms by (simp add: cu_eval del: of_nat_add of_nat_mult)

lemma parse_chars_unicode_escape:
  "parse_chars (unicode_escape c @ t) = map_option (\<lambda>(v, t). (c # v, t)) (parse_chars t)"
proof -
  let ?n = "unat c"
  have d: "?n div 4096 < 16" "?n div 256 mod 16 < 16" "?n div 16 mod 16 < 16" "?n mod 16 < 16"
    using unat_jschar_less [of c] by simp_all
  have whole: "(of_nat (4096 * (?n div 4096) + 256 * (?n div 256 mod 16)
                 + 16 * (?n div 16 mod 16) + ?n mod 16) :: jschar) = c"
    by (simp only: hex_digits_value) simp
  show ?thesis
    unfolding unicode_escape_def Let_def cu_eval append_Cons append_Nil
    by (simp only: parse_chars_escape4 [OF d [THEN hex_val_hex_digit]] whole)
qed

lemma parse_chars_raw:
  "c \<noteq> 0x22 \<Longrightarrow> c \<noteq> 0x5C \<Longrightarrow> \<not> c < 0x20 \<Longrightarrow>
   parse_chars (c # t) = map_option (\<lambda>(v, t). (c # v, t)) (parse_chars t)"
  by (simp add: cu_eval)

lemma parse_chars_simple:
  "simple_escape e = Some x \<Longrightarrow> e \<noteq> 0x75 \<Longrightarrow>
   parse_chars (0x5C # e # t) = map_option (\<lambda>(v, t). (x # v, t)) (parse_chars t)"
  by (simp add: cu_eval)

lemma parse_chars_quote_unit:
  "parse_chars (quote_unit c @ t) = map_option (\<lambda>(v, t). (c # v, t)) (parse_chars t)"
proof -
  consider "c = 0x08" | "c = 0x09" | "c = 0x0A" | "c = 0x0C" | "c = 0x0D" | "c = 0x22"
    | "c = 0x5C"
    | "c \<notin> {0x08, 0x09, 0x0A, 0x0C, 0x0D, 0x22, 0x5C}" "c < 0x20"
    | "c \<notin> {0x08, 0x09, 0x0A, 0x0C, 0x0D, 0x22, 0x5C}" "\<not> c < 0x20"
    by blast
  then show ?thesis
  proof cases
    case 8
    then show ?thesis by (simp add: quote_unit_def parse_chars_unicode_escape)
  next
    case 9
    then show ?thesis using parse_chars_raw [of c t] by (simp add: quote_unit_def)
  qed (simp_all add: quote_unit_def cu_eval parse_chars_simple simple_escape_def
         del: parse_chars.simps)
qed

lemma surrogate_raw:
  "is_high_surrogate c \<or> is_low_surrogate c \<Longrightarrow> c \<noteq> 0x22 \<and> c \<noteq> 0x5C \<and> \<not> c < 0x20"
  by (auto simp: is_high_surrogate_def is_low_surrogate_def word_le_nat_alt word_less_nat_alt)

lemma parse_chars_end: "parse_chars (cu CHR 0x22 # t) = Some ([], t)"
  by simp

lemma parse_chars_quote_units:
  "parse_chars (quote_units s @ cu CHR 0x22 # t) = Some (s, t)"
proof (induction s rule: quote_units.induct)
  case 1
  show ?case by simp
next
  case (2 c)
  show ?case
    by (simp add: parse_chars_unicode_escape parse_chars_quote_unit parse_chars_end
          del: parse_chars.simps)
next
  case (3 c d cs)
  show ?case
  proof (cases "is_high_surrogate c")
    case hi: True
    show ?thesis
    proof (cases "is_low_surrogate d")
      case True
      with hi 3 have ih: "parse_chars (quote_units cs @ cu CHR 0x22 # t) = Some (cs, t)"
        by simp
      from hi have rc: "c \<noteq> 0x22" "c \<noteq> 0x5C" "\<not> c < 0x20" using surrogate_raw by blast+
      from True have rd: "d \<noteq> 0x22" "d \<noteq> 0x5C" "\<not> d < 0x20" using surrogate_raw by blast+
      have "parse_chars (c # d # quote_units cs @ cu CHR 0x22 # t) = Some (c # d # cs, t)"
        by (simp only: parse_chars_raw [OF rc] parse_chars_raw [OF rd] ih) simp
      with hi True show ?thesis by simp
    next
      case False
      with hi 3 have ih: "parse_chars (quote_units (d # cs) @ cu CHR 0x22 # t) = Some (d # cs, t)"
        by simp
      from hi False have "quote_units (c # d # cs) = unicode_escape c @ quote_units (d # cs)"
        by simp
      then show ?thesis
        by (simp add: parse_chars_unicode_escape ih del: quote_units.simps parse_chars.simps)
    qed
  next
    case nhi: False
    with 3 have ih: "parse_chars (quote_units (d # cs) @ cu CHR 0x22 # t) = Some (d # cs, t)"
      by (cases "is_low_surrogate c") simp_all
    from nhi have "quote_units (c # d # cs)
        = (if is_low_surrogate c then unicode_escape c else quote_unit c) @ quote_units (d # cs)"
      by simp
    then show ?thesis
      by (simp add: parse_chars_unicode_escape parse_chars_quote_unit ih
            del: quote_units.simps parse_chars.simps)
  qed
qed

lemma parse_chars_QuoteJSONString:
  "QuoteJSONString s @ t = cu CHR 0x22 # u \<Longrightarrow> parse_chars u = Some (s, t)"
  using parse_chars_quote_units [of s t] by (simp add: QuoteJSONString_def)

subsection \<open>Powers and integer logarithms\<close>

lemma pow2_powi: "pow2 e = 2 powi e"
  by (simp add: pow2_def power_int_def power_one_over)

lemma pow10_powi: "pow10 e = 10 powi e"
  by (simp add: pow10_def power_int_def power_one_over)

lemma pow2_pos [simp]: "0 < pow2 e"
  by (simp add: pow2_powi)

lemma pow10_pos [simp]: "0 < pow10 e"
  by (simp add: pow10_powi)

lemma pow2_add: "pow2 (a + b) = pow2 a * pow2 b"
  by (simp add: pow2_powi power_int_add)

lemma pow10_add: "pow10 (a + b) = pow10 a * pow10 b"
  by (simp add: pow10_powi power_int_add)

lemma pow2_mono: "a \<le> b \<Longrightarrow> pow2 a \<le> pow2 b"
  by (simp add: pow2_powi power_int_increasing)

lemma pow2_strict_mono: "a < b \<Longrightarrow> pow2 a < pow2 b"
  by (simp add: pow2_powi power_int_strict_increasing)

lemma pow10_mono: "a \<le> b \<Longrightarrow> pow10 a \<le> pow10 b"
  by (simp add: pow10_powi power_int_increasing)

lemma pow10_strict_mono: "a < b \<Longrightarrow> pow10 a < pow10 b"
  by (simp add: pow10_powi power_int_strict_increasing)

lemma pow2_nat: "pow2 (int n) = 2 ^ n"
  by (simp add: pow2_def)

lemma pow10_nat: "pow10 (int n) = 10 ^ n"
  by (simp add: pow10_def)

lemma ilog_ge1:
  fixes a :: rat
  assumes "1 \<le> a" "2 \<le> B"
  shows "of_nat B ^ (floorlog B (nat \<lfloor>a\<rfloor>) - 1) \<le> a"
    and "a < of_nat B ^ floorlog B (nat \<lfloor>a\<rfloor>)"
proof -
  let ?n = "nat \<lfloor>a\<rfloor>"
  from assms have fl: "1 \<le> \<lfloor>a\<rfloor>" by (simp add: le_floor_iff)
  then have "0 \<le> \<lfloor>a\<rfloor>" by linarith
  then have cast: "(of_nat ?n :: rat) = of_int \<lfloor>a\<rfloor>"
    by (simp only: of_nat_nat)
  have n: "0 < ?n" "of_nat ?n \<le> a" "a < of_nat ?n + 1"
    using fl floor_correct [of a] unfolding cast by simp_all
  from assms n(1) have b: "B ^ (floorlog B ?n - 1) \<le> ?n" "?n < B ^ floorlog B ?n"
    using floorlog_bounds [where b = B and x = ?n] by simp_all
  from b(1) have "(of_nat (B ^ (floorlog B ?n - 1)) :: rat) \<le> of_nat ?n"
    by (simp only: of_nat_le_iff)
  with n(2) show "of_nat B ^ (floorlog B ?n - 1) \<le> a"
    by simp
  from b(2) have "Suc ?n \<le> B ^ floorlog B ?n" by simp
  then have "(of_nat (Suc ?n) :: rat) \<le> of_nat (B ^ floorlog B ?n)"
    by (simp only: of_nat_le_iff)
  with n(3) show "a < of_nat B ^ floorlog B ?n"
    by simp
qed

lemma ilog_lt1:
  fixes a :: rat
  assumes "0 < a" "a < 1" "2 \<le> B"
  shows "1 / of_nat B ^ floorlog B (nat (\<lceil>1 / a\<rceil> - 1)) \<le> a"
    and "a < 1 / of_nat B ^ (floorlog B (nat (\<lceil>1 / a\<rceil> - 1)) - 1)"
proof -
  let ?x = "1 / a"
  let ?k = "nat (\<lceil>?x\<rceil> - 1)"
  from assms have x: "1 < ?x" by simp
  then have c: "2 \<le> \<lceil>?x\<rceil>" by (simp add: le_ceiling_iff) 
  then have k: "0 < ?k" by simp
  from c have "0 \<le> \<lceil>?x\<rceil> - 1" by linarith
  then have cast: "(of_nat ?k :: rat) = of_int \<lceil>?x\<rceil> - 1"
    by (simp only: of_nat_nat of_int_diff of_int_1)
  have klt: "of_nat ?k < ?x" and xle: "?x \<le> of_nat ?k + 1"
    using ceiling_correct [of ?x] unfolding cast by simp_all
  from assms k have b: "B ^ (floorlog B ?k - 1) \<le> ?k" "?k < B ^ floorlog B ?k"
    using floorlog_bounds [where b = B and x = ?k] by simp_all
  from b(2) have "Suc ?k \<le> B ^ floorlog B ?k" by simp
  then have "(of_nat (Suc ?k) :: rat) \<le> of_nat (B ^ floorlog B ?k)"
    by (simp only: of_nat_le_iff)
  with xle have "?x \<le> of_nat B ^ floorlog B ?k" by simp
  with assms(1) have "1 \<le> a * of_nat B ^ floorlog B ?k"
    by (simp add: field_simps)
  moreover from assms(3) have "(0::rat) < of_nat B ^ floorlog B ?k" by simp
  ultimately show "1 / of_nat B ^ floorlog B ?k \<le> a"
    by (simp only: pos_divide_le_eq)
  from b(1) have "(of_nat (B ^ (floorlog B ?k - 1)) :: rat) \<le> of_nat ?k"
    by (simp only: of_nat_le_iff)
  then have "(of_nat B ^ (floorlog B ?k - 1) :: rat) \<le> of_nat ?k"
    by (simp only: of_nat_power)
  from this klt have "of_nat B ^ (floorlog B ?k - 1) < ?x" by (rule le_less_trans)
  with assms(1) have "of_nat B ^ (floorlog B ?k - 1) * a < 1"
    by (simp only: pos_less_divide_eq)
  then have "a * of_nat B ^ (floorlog B ?k - 1) < 1"
    by (simp only: mult.commute)
  moreover from assms(3) have "(0::rat) < of_nat B ^ (floorlog B ?k - 1)" by simp
  ultimately show "a < 1 / of_nat B ^ (floorlog B ?k - 1)"
    by (simp only: pos_less_divide_eq)
qed


lemma pow2_neg_nat: "pow2 (- int n) = 1 / 2 ^ n"
  by (cases "n = 0") (simp_all add: pow2_def)

lemma pow10_neg_nat: "pow10 (- int n) = 1 / 10 ^ n"
  by (cases "n = 0") (simp_all add: pow10_def)

lemma ilog2_bounds:
  assumes "0 < a"
  shows "pow2 (ilog2 a) \<le> a" and "a < pow2 (ilog2 a + 1)"
proof -
  have "pow2 (ilog2 a) \<le> a \<and> a < pow2 (ilog2 a + 1)"
  proof (cases "1 \<le> a")
    case True
    define f where "f = floorlog 2 (nat \<lfloor>a\<rfloor>)"
    from True have "1 \<le> \<lfloor>a\<rfloor>" by (simp add: le_floor_iff)
    then have "0 < nat \<lfloor>a\<rfloor>" by linarith
    then have fpos: "0 < f" by (simp add: f_def floorlog_def)
    from True have "ilog2 a = int f - 1"
      by (simp only: ilog2_def bitlen_def f_def if_True)
    with fpos have e: "ilog2 a = int (f - 1)" "ilog2 a + 1 = int f" by linarith+
    from True ilog_ge1 [of a 2] have b: "(2::rat) ^ (f - 1) \<le> a" "a < 2 ^ f"
      by (simp_all add: f_def)
    have "pow2 (ilog2 a) \<le> a" unfolding e(1) pow2_nat by (rule b)
    moreover have "a < pow2 (ilog2 a + 1)" unfolding e(2) pow2_nat by (rule b)
    ultimately show ?thesis by blast
  next
    case False
    define g where "g = floorlog 2 (nat (\<lceil>1 / a\<rceil> - 1))"
    from False assms have "1 < 1 / a" by simp
    then have "2 \<le> \<lceil>1 / a\<rceil>" by (simp add: le_ceiling_iff)
    then have "0 < nat (\<lceil>1 / a\<rceil> - 1)" by linarith
    then have gpos: "0 < g" by (simp add: g_def floorlog_def)
    from False have "ilog2 a = - int g"
      by (simp only: ilog2_def bitlen_def g_def if_False)
    with gpos have e: "ilog2 a = - int g" "ilog2 a + 1 = - int (g - 1)" by linarith+
    from False assms ilog_lt1 [of a 2] have b: "1 / (2::rat) ^ g \<le> a" "a < 1 / 2 ^ (g - 1)"
      by (simp_all add: g_def)
    have "pow2 (ilog2 a) \<le> a" unfolding e(1) pow2_neg_nat by (rule b)
    moreover have "a < pow2 (ilog2 a + 1)" unfolding e(2) pow2_neg_nat by (rule b)
    ultimately show ?thesis by blast
  qed
  then show "pow2 (ilog2 a) \<le> a" and "a < pow2 (ilog2 a + 1)" by blast+
qed

lemma pow2_less_cancel: "pow2 a < pow2 b \<Longrightarrow> a < b"
  using pow2_mono [of b a] by (cases "a < b") simp_all

lemma pow10_less_cancel: "pow10 a < pow10 b \<Longrightarrow> a < b"
  using pow10_mono [of b a] by (cases "a < b") simp_all

lemma ilog2_unique:
  assumes "pow2 e \<le> a" "a < pow2 (e + 1)"
  shows "ilog2 a = e"
proof -
  from assms(1) have pos: "0 < a" using pow2_pos [of e] by linarith
  have "pow2 e < pow2 (ilog2 a + 1)"
    using assms(1) ilog2_bounds(2) [OF pos] by linarith
  then have 1: "e < ilog2 a + 1" by (rule pow2_less_cancel)
  have "pow2 (ilog2 a) < pow2 (e + 1)"
    using assms(2) ilog2_bounds(1) [OF pos] by linarith
  then have 2: "ilog2 a < e + 1" by (rule pow2_less_cancel)
  from 1 2 show ?thesis by simp
qed

lemma ilog10_bounds:
  assumes "0 < a"
  shows "pow10 (ilog10 a) \<le> a" and "a < pow10 (ilog10 a + 1)"
proof -
  have "pow10 (ilog10 a) \<le> a \<and> a < pow10 (ilog10 a + 1)"
  proof (cases "1 \<le> a")
    case True
    define f where "f = floorlog 10 (nat \<lfloor>a\<rfloor>)"
    from True have "1 \<le> \<lfloor>a\<rfloor>" by (simp add: le_floor_iff)
    then have "0 < nat \<lfloor>a\<rfloor>" by linarith
    then have fpos: "0 < f" by (simp add: f_def floorlog_def)
    from True have "ilog10 a = int f - 1"
      by (simp only: ilog10_def f_def if_True)
    with fpos have e: "ilog10 a = int (f - 1)" "ilog10 a + 1 = int f" by linarith+
    from True ilog_ge1 [of a 10] have b: "(10::rat) ^ (f - 1) \<le> a" "a < 10 ^ f"
      by (simp_all add: f_def)
    have "pow10 (ilog10 a) \<le> a" unfolding e(1) pow10_nat by (rule b)
    moreover have "a < pow10 (ilog10 a + 1)" unfolding e(2) pow10_nat by (rule b)
    ultimately show ?thesis by blast
  next
    case False
    define g where "g = floorlog 10 (nat (\<lceil>1 / a\<rceil> - 1))"
    from False assms have "1 < 1 / a" by simp
    then have "2 \<le> \<lceil>1 / a\<rceil>" by (simp add: le_ceiling_iff)
    then have "0 < nat (\<lceil>1 / a\<rceil> - 1)" by linarith
    then have gpos: "0 < g" by (simp add: g_def floorlog_def)
    from False have "ilog10 a = - int g"
      by (simp only: ilog10_def g_def if_False)
    with gpos have e: "ilog10 a = - int g" "ilog10 a + 1 = - int (g - 1)" by linarith+
    from False assms ilog_lt1 [of a 10] have b: "1 / (10::rat) ^ g \<le> a" "a < 1 / 10 ^ (g - 1)"
      by (simp_all add: g_def)
    have "pow10 (ilog10 a) \<le> a" unfolding e(1) pow10_neg_nat by (rule b)
    moreover have "a < pow10 (ilog10 a + 1)" unfolding e(2) pow10_neg_nat by (rule b)
    ultimately show ?thesis by blast
  qed
  then show "pow10 (ilog10 a) \<le> a" and "a < pow10 (ilog10 a + 1)" by blast+
qed

subsection \<open>Rounding\<close>

lemma round_half_even_of_int [simp]: "round_half_even (of_int m) = m"
  by (simp add: round_half_even_def)

lemma round_half_even_near:
  assumes "\<bar>x - of_int m\<bar> < 1 / 2"
  shows "round_half_even x = m"
proof -
  from assms have lo: "of_int m - 1 / 2 < x" and hi: "x < of_int m + 1 / 2"
    by linarith+
  show ?thesis
  proof (cases "of_int m \<le> x")
    case True
    with hi have "\<lfloor>x\<rfloor> = m" by (simp add: floor_unique)
    with hi show ?thesis by (simp add: round_half_even_def Let_def)
  next
    case False
    then have "of_int (m - 1) \<le> x" "x < of_int (m - 1) + 1" using lo by simp_all
    then have f: "\<lfloor>x\<rfloor> = m - 1" by (rule floor_unique)
    from lo have "\<not> x - of_int (m - 1) < 1 / 2" "1 / 2 < x - of_int (m - 1)" by simp_all
    with f show ?thesis by (simp add: round_half_even_def Let_def)
  qed
qed

lemma round_to_double_eq:
  assumes "0 < v" "max (ilog2 v) (- 1022) = E" "round_half_even (v / pow2 (E - 52)) = M"
    "of_int M * pow2 (E - 52) = a" "0 < a" "a < 2 ^ 1024"
  shows "round_to_double False v = Fin a"
proof -
  from assms(1) have "v \<noteq> 0" by simp
  moreover from assms(6) have "\<not> 2 ^ 1024 \<le> a" by simp
  moreover from assms(5) have "a \<noteq> 0" by simp
  ultimately show ?thesis
    unfolding round_to_double_def Let_def assms(2) assms(3) assms(4)
    by (simp only: if_False)
qed

lemma pow2_shift:
  "pow2 (E + 1) = 2 ^ 53 * pow2 (E - 52)"
  "pow2 E = 2 ^ 52 * pow2 (E - 52)"
  "pow2 (E - 1) = 2 ^ 51 * pow2 (E - 52)"
  "pow2 (E - 1 - 52) = pow2 (E - 52) / 2"
proof -
  have e: "E + 1 = int 53 + (E - 52)" "E = int 52 + (E - 52)" "E - 1 = int 51 + (E - 52)"
    "E - 52 = int 1 + (E - 1 - 52)"
    by simp_all
  show "pow2 (E + 1) = 2 ^ 53 * pow2 (E - 52)"
    by (subst e(1)) (simp only: pow2_add pow2_nat)
  show "pow2 E = 2 ^ 52 * pow2 (E - 52)"
    by (subst e(2)) (simp only: pow2_add pow2_nat)
  show "pow2 (E - 1) = 2 ^ 51 * pow2 (E - 52)"
    by (subst e(3)) (simp only: pow2_add pow2_nat)
  have "pow2 (E - 52) = 2 * pow2 (E - 1 - 52)"
    by (subst e(4)) (simp only: pow2_add pow2_nat power_one_right)
  then show "pow2 (E - 1 - 52) = pow2 (E - 52) / 2" by simp
qed

lemma double_repr:
  assumes "0 < a" "round_to_double False a = Fin a"
  obtains m where "a = of_int m * pow2 (max (ilog2 a) (- 1022) - 52)" "0 < m" "m < 2 ^ 53"
    "a < 2 ^ 1024"
proof -
  define E where "E = max (ilog2 a) (- 1022)"
  define u where "u = pow2 (E - 52)"
  define m where "m = round_half_even (a / u)"
  have upos: "0 < u" by (simp add: u_def)
  from assms(1) have nz: "a \<noteq> 0" by simp
  have r: "round_to_double False a =
      (if 2 ^ 1024 \<le> of_int m * u then PosInf
       else if of_int m * u = 0 then Fin 0 else Fin (of_int m * u))"
    using nz unfolding round_to_double_def Let_def E_def [symmetric] u_def [symmetric] m_def [symmetric]
    by (simp add: infinity_def signed_zero_def)
  from assms(2) r nz have big: "\<not> 2 ^ 1024 \<le> of_int m * u" and eq: "of_int m * u = a"
    by (auto split: if_splits)
  from eq assms(1) upos have mpos: "0 < m"
    by (simp add: zero_less_mult_iff flip: eq)
  have "a < pow2 (ilog2 a + 1)" using assms(1) by (rule ilog2_bounds)
  also have "\<dots> \<le> pow2 (E + 1)" by (rule pow2_mono) (simp add: E_def)
  also have "\<dots> = 2 ^ 53 * u" unfolding u_def by (rule pow2_shift)
  finally have "of_int m * u < 2 ^ 53 * u" by (simp only: eq)
  with upos have "(of_int m :: rat) < 2 ^ 53" by (simp only: mult_less_cancel_right_pos)
  then have "(of_int m :: rat) < of_int (2 ^ 53)" by simp
  then have mlt: "m < 2 ^ 53" by (simp only: of_int_less_iff)
  from big eq have "a < 2 ^ 1024" by simp
  with eq mpos mlt that [of m] show thesis
    by (simp add: E_def u_def)
qed

lemma ilog2_less: "0 < v \<Longrightarrow> v < pow2 E \<Longrightarrow> ilog2 v < E"
proof -
  assume "0 < v" "v < pow2 E"
  then have "pow2 (ilog2 v) < pow2 E" using ilog2_bounds(1) [of v] by linarith
  then show ?thesis by (rule pow2_less_cancel)
qed

text \<open>
  A value close enough to a finite Number rounds to it: within the fraction
  \<open>1 / (2 * 10\<^sup>1\<^sup>6)\<close> of the Number, which is less than half the distance to either
  neighbour, since \<open>2\<^sup>5\<^sup>3 < 10\<^sup>1\<^sup>6\<close>.
\<close>

lemma round_near:
  assumes a: "0 < a" "round_to_double False a = Fin a"
    and near: "\<bar>v - a\<bar> * (2 * 10 ^ 16) \<le> a"
  shows "round_to_double False v = Fin a"
proof -
  define E where "E = max (ilog2 a) (- 1022)"
  define u where "u = pow2 (E - 52)"
  from a obtain m where m: "a = of_int m * u" "0 < m" "m < 2 ^ 53" and fin: "a < 2 ^ 1024"
    unfolding u_def E_def by (rule double_repr)
  define d where "d = \<bar>v - a\<bar>"
  have upos: "0 < u" by (simp add: u_def)
  have sh: "pow2 (E + 1) = 2 ^ 53 * u" "pow2 E = 2 ^ 52 * u" "pow2 (E - 1) = 2 ^ 51 * u"
    "pow2 (E - 1 - 52) = u / 2"
    unfolding u_def by (rule pow2_shift)+
  from m(3) have "m \<le> 2 ^ 53 - 1" by simp
  then have "(of_int m :: rat) \<le> of_int (2 ^ 53 - 1)" by (simp only: of_int_le_iff)
  then have mle: "(of_int m :: rat) \<le> 2 ^ 53 - 1" by simp
  from m(2) have "1 \<le> m" by simp
  then have "(of_int (1::int) :: rat) \<le> of_int m" by (simp only: of_int_le_iff)
  then have mge: "(1::rat) \<le> of_int m" by simp
  from near have dn: "d * (2 * 10 ^ 16) \<le> of_int m * u" by (simp only: d_def m(1))
  have "d * (2 * 10 ^ 16) \<le> (2 ^ 53 - 1) * u"
    using dn mle upos mult_right_mono [of "of_int m" "2 ^ 53 - 1" u] by linarith
  then have dhalf: "d * 2 < u" using upos by simp
  have d0: "0 \<le> d" by (simp add: d_def)
  have vlo: "a - d \<le> v" and vhi: "v \<le> a + d" by (simp_all add: d_def abs_le_iff)
  have "u \<le> of_int m * u" using mge upos by simp
  then have "u \<le> a" by (simp only: m(1))
  with dhalf vlo upos have vpos: "0 < v" by linarith
  from mle have "of_int m + 1 \<le> (2 ^ 53 :: rat)" by linarith
  then have "(of_int m + 1) * u \<le> 2 ^ 53 * u"
    by (rule mult_right_mono) (use upos in simp)
  moreover have "(of_int m + 1) * u = a + u" by (simp add: m(1) algebra_simps)
  ultimately have "a + d < 2 ^ 53 * u" using dhalf d0 upos by linarith
  with vhi have vtop: "v < pow2 (E + 1)" unfolding sh by linarith
  have same: "round_to_double False v = Fin a" if "max (ilog2 v) (- 1022) = E"
  proof -
    have "v / u - of_int m = (v - a) / u"
      using upos by (simp add: m(1) field_simps)
    then have "\<bar>v / u - of_int m\<bar> = d / u"
      by (simp only: abs_divide abs_of_pos [OF upos] d_def)
    also have "\<dots> < 1 / 2" using dhalf upos by (simp add: field_simps)
    finally have "round_half_even (v / u) = m" by (rule round_half_even_near)
    then have r1: "round_half_even (v / pow2 (E - 52)) = m" by (simp only: u_def)
    have r2: "of_int m * pow2 (E - 52) = a" by (simp only: m(1) u_def)
    show ?thesis by (rule round_to_double_eq [OF vpos that r1 r2 a(1) fin])
  qed
  show ?thesis
  proof (cases "ilog2 a \<le> - 1022")
    case True
    then have E: "E = - 1022" by (simp add: E_def)
    from vpos vtop have "ilog2 v < E + 1" by (rule ilog2_less)
    then have "max (ilog2 v) (- 1022) = E" by (simp add: E)
    then show ?thesis by (rule same)
  next
    case False
    then have E: "E = ilog2 a" "- 1022 < E" by (simp_all add: E_def)
    show ?thesis
    proof (cases "pow2 E \<le> v")
      case True
      from True vtop have "ilog2 v = E" by (rule ilog2_unique)
      then have "max (ilog2 v) (- 1022) = E" using E(2) by simp
      then show ?thesis by (rule same)
    next
      case below: False
      have "pow2 E \<le> a" unfolding E(1) using a(1) by (rule ilog2_bounds)
      then have ge: "2 ^ 52 * u \<le> of_int m * u" by (simp only: sh m(1))
      from below vlo dhalf upos d0 have "a - 2 ^ 52 * u < u" unfolding sh by linarith
      then have "(of_int m - 2 ^ 52) * u < 1 * u" by (simp add: m(1) algebra_simps)
      with upos have "(of_int m :: rat) - 2 ^ 52 < 1" by (simp only: mult_less_cancel_right_pos)
      then have "(of_int m :: rat) < of_int (2 ^ 52 + 1)" by simp
      then have "m < 2 ^ 52 + 1" by (simp only: of_int_less_iff)
      moreover from ge upos have "(2 ^ 52 :: rat) \<le> of_int m" by (simp only: mult_le_cancel_right_pos)
      then have "(of_int (2 ^ 52) :: rat) \<le> of_int m" by simp
      then have "2 ^ 52 \<le> m" by (simp only: of_int_le_iff)
      ultimately have meq: "m = 2 ^ 52" by simp
      then have aeq: "a = 2 ^ 52 * u" by (simp add: m(1))
      from dn have "d * (2 * 10 ^ 16) \<le> 2 ^ 52 * u" by (simp add: meq)
      then have dq: "d * 4 < u" using upos by simp
      have "(2::rat) ^ 52 * u = 2 * (2 ^ 51 * u)" by simp
      moreover have "u \<le> 2 ^ 51 * u" using upos by simp
      ultimately have "pow2 (E - 1) \<le> v" using vlo dq upos unfolding sh aeq by linarith
      moreover from below have "v < pow2 (E - 1 + 1)" by simp
      ultimately have "ilog2 v = E - 1" by (rule ilog2_unique)
      then have mx: "max (ilog2 v) (- 1022) = E - 1" using E(2) by simp
      have "v / (u / 2) - of_int (2 * m) = (v - a) / (u / 2)"
        using upos by (simp add: m(1) field_simps)
      moreover have "0 < u / 2" using upos by simp
      ultimately have "\<bar>v / (u / 2) - of_int (2 * m)\<bar> = d / (u / 2)"
        by (simp only: abs_divide abs_of_pos d_def)
      also have "\<dots> < 1 / 2" using dq upos by (simp add: field_simps)
      finally have "round_half_even (v / (u / 2)) = 2 * m" by (rule round_half_even_near)
      then have r: "round_half_even (v / pow2 (E - 1 - 52)) = 2 * m" by (simp only: sh)
      have "of_int (2 * m) * (u / 2) = a" by (simp add: m(1))
      then have r2: "of_int (2 * m) * pow2 (E - 1 - 52) = a" by (simp only: sh(4))
      show ?thesis by (rule round_to_double_eq [OF vpos mx r r2 a(1) fin])
    qed
  qed
qed

subsection \<open>The shortest digits of a Number\<close>

lemma digits_at_rounds:
  "digits_at a k = Some s \<Longrightarrow>
   round_to_double False (of_nat s * pow10 (ilog10 a + 1 - int k)) = Fin a"
  unfolding digits_at_def Let_def by (simp del: of_nat_Suc split: if_splits)

lemma floor_scaled_bounds:
  assumes "0 < a" "1 \<le> k"
  defines "p \<equiv> pow10 (ilog10 a + 1 - int k)"
  defines "lo \<equiv> nat \<lfloor>a / p\<rfloor>"
  shows "10 ^ (k - 1) \<le> lo" and "lo < 10 ^ k"
    and "of_nat lo * p \<le> a" and "a < of_nat (Suc lo) * p"
proof -
  have ppos: "0 < p" by (simp add: p_def)
  have "pow10 (ilog10 a) = pow10 (int (k - 1) + (ilog10 a + 1 - int k))"
    using assms(2) by (simp add: of_nat_diff)
  then have lo_eq: "pow10 (ilog10 a) = 10 ^ (k - 1) * p"
    by (simp only: pow10_add pow10_nat p_def)
  have "pow10 (ilog10 a + 1) = pow10 (int k + (ilog10 a + 1 - int k))" by simp
  then have hi_eq: "pow10 (ilog10 a + 1) = 10 ^ k * p"
    by (simp only: pow10_add pow10_nat p_def)
  from ilog10_bounds [OF assms(1)] have "10 ^ (k - 1) * p \<le> a" "a < 10 ^ k * p"
    by (simp_all only: lo_eq hi_eq)
  with ppos have q: "10 ^ (k - 1) \<le> a / p" "a / p < 10 ^ k"
    by (simp_all add: pos_le_divide_eq pos_divide_less_eq)
  have "(0::rat) \<le> 10 ^ (k - 1)" by simp
  with q(1) have qpos: "0 \<le> a / p" by linarith
  then have fl: "0 \<le> \<lfloor>a / p\<rfloor>" by simp
  then have cast: "(of_nat lo :: rat) = of_int \<lfloor>a / p\<rfloor>" by (simp only: lo_def of_nat_nat)
  have "(of_nat (10 ^ (k - 1)) :: rat) \<le> a / p" using q(1) by simp
  then have "int (10 ^ (k - 1)) \<le> \<lfloor>a / p\<rfloor>" by (simp add: le_floor_iff)
  with fl show "10 ^ (k - 1) \<le> lo" by (simp add: lo_def le_nat_iff)
  from q(2) have "a / p < of_int (10 ^ k)" by simp
  then have "\<lfloor>a / p\<rfloor> < 10 ^ k" by (simp only: floor_less_iff)
  with fl show "lo < 10 ^ k" by (simp add: lo_def nat_less_iff)
  have fc: "of_nat lo \<le> a / p" "a / p < of_nat lo + 1"
    unfolding cast using floor_correct [of "a / p"] by simp_all
  from fc(1) ppos show "of_nat lo * p \<le> a"
    by (simp add: pos_le_divide_eq)
  from fc(2) ppos have "a < (of_nat lo + 1) * p"
    by (simp add: pos_divide_less_eq)
  then show "a < of_nat (Suc lo) * p"
    by (simp add: add.commute)
qed

lemma digits_at_bounds:
  assumes "0 < a" "1 \<le> k" "digits_at a k = Some s"
  shows "10 ^ (k - 1) \<le> s" "s \<le> 10 ^ k"
proof -
  define lo where "lo = nat \<lfloor>a / pow10 (ilog10 a + 1 - int k)\<rfloor>"
  have b: "10 ^ (k - 1) \<le> lo" "lo < 10 ^ k"
    unfolding lo_def by (rule floor_scaled_bounds [OF assms(1,2)])+
  from assms(3) have "s = lo \<or> s = Suc lo"
    unfolding digits_at_def Let_def lo_def [symmetric] by (auto split: if_splits)
  with b show "10 ^ (k - 1) \<le> s" "s \<le> 10 ^ k"
    by linarith+
qed

lemma nearest_17:
  assumes "0 < a" "round_to_double False a = Fin a"
  defines "p \<equiv> pow10 (ilog10 a + 1 - int 17)"
  defines "lo \<equiv> nat \<lfloor>a / p\<rfloor>"
  shows "round_to_double False (of_nat (if nearer a p lo then lo else Suc lo) * p) = Fin a"
proof -
  have b: "of_nat lo * p \<le> a" "a < of_nat (Suc lo) * p"
    unfolding lo_def p_def by (rule floor_scaled_bounds [OF assms(1)], simp)+
  have "pow10 (ilog10 a) = pow10 (int 16 + (ilog10 a + 1 - int 17))" by simp
  then have "pow10 (ilog10 a) = 10 ^ 16 * p"
    by (simp only: pow10_add pow10_nat p_def)
  with ilog10_bounds(1) [OF assms(1)] have scale: "p * 10 ^ 16 \<le> a"
    by (simp add: mult.commute)
  define dl where "dl = a - of_nat lo * p"
  define dh where "dh = of_nat (Suc lo) * p - a"
  have sum: "dl + dh = p" by (simp add: dl_def dh_def algebra_simps)
  from b have nonneg: "0 \<le> dl" "0 \<le> dh" by (simp_all add: dl_def dh_def)
  have nr: "nearer a p lo \<longleftrightarrow> dl < dh \<or> (dl = dh \<and> even lo)"
    by (simp only: nearer_def Let_def dl_def dh_def)
  show ?thesis
  proof (cases "nearer a p lo")
    case True
    with nr have "dl \<le> dh" by auto
    with sum have "dl * 2 \<le> p" by linarith
    then have "dl * (2 * 10 ^ 16) \<le> p * 10 ^ 16" by simp
    with scale have "dl * (2 * 10 ^ 16) \<le> a" by linarith
    moreover have "\<bar>of_nat lo * p - a\<bar> = dl" using nonneg(1) by (simp add: dl_def)
    ultimately have "\<bar>of_nat lo * p - a\<bar> * (2 * 10 ^ 16) \<le> a" by simp
    with assms(1,2) have "round_to_double False (of_nat lo * p) = Fin a" by (rule round_near)
    with True show ?thesis by simp
  next
    case False
    with nr have "dh \<le> dl" by auto
    with sum have "dh * 2 \<le> p" by linarith
    then have "dh * (2 * 10 ^ 16) \<le> p * 10 ^ 16" by simp
    with scale have "dh * (2 * 10 ^ 16) \<le> a" by linarith
    moreover have "\<bar>of_nat (Suc lo) * p - a\<bar> = dh" using nonneg(2) by (simp add: dh_def)
    ultimately have "\<bar>of_nat (Suc lo) * p - a\<bar> * (2 * 10 ^ 16) \<le> a" by simp
    with assms(1,2) have "round_to_double False (of_nat (Suc lo) * p) = Fin a" by (rule round_near)
    with False show ?thesis by (simp del: of_nat_Suc)
  qed
qed

lemma shortest_correct:
  assumes "0 < a" "round_to_double False a = Fin a"
  shows "fuel + k = 17 \<Longrightarrow> 1 \<le> k \<Longrightarrow> shortest fuel k a = (k', s) \<Longrightarrow>
         1 \<le> k' \<and> 10 ^ (k' - 1) \<le> s \<and> s \<le> 10 ^ k' \<and>
         round_to_double False (of_nat s * pow10 (ilog10 a + 1 - int k')) = Fin a"
proof (induction fuel arbitrary: k)
  case 0
  then have k: "k = 17" by simp
  define p where "p = pow10 (ilog10 a + 1 - int 17)"
  define lo where "lo = nat \<lfloor>a / p\<rfloor>"
  have b: "10 ^ (17 - 1) \<le> lo" "lo < 10 ^ 17"
    unfolding lo_def p_def by (rule floor_scaled_bounds [OF assms(1)], simp)+
  from 0(3) have ks: "k' = 17" "s = (if nearer a p lo then lo else Suc lo)"
    unfolding k by (auto simp: Let_def p_def lo_def)
  have "round_to_double False (of_nat s * p) = Fin a"
    unfolding ks(2) p_def lo_def by (rule nearest_17 [OF assms])
  moreover from b have "10 ^ (17 - 1) \<le> s" "s \<le> 10 ^ 17"
    unfolding ks(2) by (simp_all split: if_splits)
  ultimately show ?case
    unfolding ks(1) p_def by simp
next
  case (Suc fuel)
  show ?case
  proof (cases "digits_at a k")
    case None
    with Suc.prems(3) have "shortest fuel (Suc k) a = (k', s)" by simp
    moreover from Suc.prems(1) have "fuel + Suc k = 17" by simp
    ultimately show ?thesis using Suc.IH [of "Suc k"] by simp
  next
    case (Some s')
    with Suc.prems(3) have eq: "k' = k" "s' = s" by simp_all
    from Some digits_at_rounds [of a k s] digits_at_bounds [OF assms(1) Suc.prems(2), of s]
    show ?thesis using Suc.prems(2) unfolding eq by simp
  qed
qed

subsection \<open>Reading a number's notation\<close>

lemma takeWhile_digits:
  assumes "\<forall>c \<in> set xs. is_digit c" "r = [] \<or> \<not> is_digit (hd r)"
  shows "takeWhile is_digit (xs @ r) = xs" and "dropWhile is_digit (xs @ r) = r"
proof -
  from assms(2) have "takeWhile is_digit r = []" "dropWhile is_digit r = r"
    by (cases r; simp)+
  with assms(1) show "takeWhile is_digit (xs @ r) = xs" "dropWhile is_digit (xs @ r) = r"
    by (simp_all add: takeWhile_append2 dropWhile_append2)
qed

lemma not_digit_chars:
  "\<not> is_digit (cu CHR ''.'')" "\<not> is_digit (cu CHR ''e'')" "\<not> is_digit (cu CHR ''E'')"
  "\<not> is_digit (cu CHR ''-'')" "\<not> is_digit (cu CHR ''+'')" "\<not> is_digit (cu CHR '','')"
  "\<not> is_digit (cu CHR ''}'')" "is_digit (cu CHR ''0'')"
  by (simp_all add: is_digit_def cu_def)

lemma number_int_eq:
  assumes "ip \<noteq> []" "\<forall>c \<in> set ip. is_digit c" "hd ip = cu CHR ''0'' \<longrightarrow> ip = [cu CHR ''0'']"
    "r = [] \<or> \<not> is_digit (hd r)"
  shows "number_int (ip @ r) = (ip, r)"
proof (cases "hd ip = cu CHR ''0''")
  case True
  with assms(3) have "ip = [cu CHR ''0'']" by simp
  then show ?thesis by (simp add: number_int_def)
next
  case False
  with assms(1) have "\<not> (ip @ r \<noteq> [] \<and> hd (ip @ r) = cu CHR ''0'')" by simp
  then show ?thesis
    unfolding number_int_def
    by (simp only: if_False takeWhile_digits [OF assms(2,4)])
qed

lemma number_frac_none:
  "\<not> (r \<noteq> [] \<and> hd r = cu CHR ''.'') \<Longrightarrow> number_frac r = Some ([], r)"
  unfolding number_frac_def by (simp only: if_False)

lemma number_frac_some:
  assumes "fp \<noteq> []" "\<forall>c \<in> set fp. is_digit c" "t = [] \<or> \<not> is_digit (hd t)"
  shows "number_frac (cu CHR ''.'' # fp @ t) = Some (fp, t)"
  unfolding number_frac_def using assms(1)
  by (simp add: takeWhile_digits [OF assms(2,3)])

lemma number_exp_none:
  "\<not> (r \<noteq> [] \<and> (hd r = cu CHR ''e'' \<or> hd r = cu CHR ''E'')) \<Longrightarrow> number_exp r = Some (0, r)"
  unfolding number_exp_def by (simp only: if_False)

lemma number_exp_digits:
  assumes "t = [] \<or> \<not> is_digit (hd t)" "sg = cu CHR ''-'' \<or> sg = cu CHR ''+''"
  shows "number_exp (cu CHR ''e'' # sg # dec_nat n @ t)
           = Some (if sg = cu CHR ''-'' then - int n else int n, t)"
proof -
  have dg: "\<forall>c \<in> set (dec_nat n). is_digit c" using dec_nat_digits by blast
  note tw = takeWhile_digits [OF dg assms(1)]
  show ?thesis
    unfolding number_exp_def Let_def using assms(2)
    by (auto simp: tw dec_nat_not_Nil digits_val_dec_nat)
qed

lemma number_exp_some:
  assumes "t = [] \<or> \<not> is_digit (hd t)"
  shows "number_exp (exponent_text e @ t) = Some (e, t)"
proof (cases "e < 0")
  case True
  then have "exponent_text e @ t = cu CHR ''e'' # cu CHR ''-'' # dec_nat (nat (- e)) @ t"
    by (simp add: exponent_text_def)
  with True show ?thesis
    by (simp add: number_exp_digits [OF assms])
next
  case False
  have pm: "cu CHR ''+'' \<noteq> cu CHR ''-''" by (simp add: cu_def)
  from False have "exponent_text e @ t = cu CHR ''e'' # cu CHR ''+'' # dec_nat (nat e) @ t"
    by (simp add: exponent_text_def)
  with False show ?thesis
    by (simp add: number_exp_digits [OF assms] pm)
qed

lemma parse_number_parts:
  assumes "number_int s = (ip, r1)" "ip \<noteq> []" "number_frac r1 = Some (fp, r2)"
    "number_exp r2 = Some (ex, r3)"
  shows "s = [] \<or> hd s \<noteq> cu CHR ''-'' \<Longrightarrow>
         parse_number s = Some (round_to_double False
            (of_nat (digits_val (ip @ fp)) * pow10 (ex - int (length fp))), r3)"
    and "parse_number (cu CHR ''-'' # s) = Some (round_to_double True
            (of_nat (digits_val (ip @ fp)) * pow10 (ex - int (length fp))), r3)"
proof -
  assume "s = [] \<or> hd s \<noteq> cu CHR ''-''"
  then have "\<not> (s \<noteq> [] \<and> hd s = cu CHR ''-'')" by blast
  then show "parse_number s = Some (round_to_double False
            (of_nat (digits_val (ip @ fp)) * pow10 (ex - int (length fp))), r3)"
    unfolding parse_number_def Let_def
    by (simp only: if_False assms prod.case option.case)
next
  show "parse_number (cu CHR ''-'' # s) = Some (round_to_double True
            (of_nat (digits_val (ip @ fp)) * pow10 (ex - int (length fp))), r3)"
    unfolding parse_number_def Let_def
    by (simp add: assms)
qed

lemma digits_val_Nil [simp]: "digits_val [] = 0"
  by (simp add: digits_val_def)

lemma digits_val_append:
  "digits_val (xs @ ys) = digits_val xs * 10 ^ length ys + digits_val ys"
proof (induction ys rule: rev_induct)
  case Nil
  show ?case by simp
next
  case (snoc c ys)
  have "digits_val (xs @ ys @ [c]) = 10 * digits_val (xs @ ys) + digit_val c"
    using digits_val_snoc [of "xs @ ys" c] by simp
  with snoc show ?case by (simp add: digits_val_snoc algebra_simps)
qed

lemma digit_val_0: "digit_val (cu CHR ''0'') = 0"
  by (simp add: digit_val_def cu_def)

lemma digits_val_zeros [simp]: "digits_val (zeros m) = 0"
proof (induction m)
  case 0
  show ?case by (simp add: zeros_def)
next
  case (Suc m)
  have "zeros (Suc m) = zeros m @ [cu CHR ''0'']"
    by (simp add: zeros_def replicate_append_same)
  with Suc show ?case by (simp add: digits_val_snoc digit_val_0)
qed

lemma zeros_digits: "c \<in> set (zeros m) \<Longrightarrow> is_digit c"
  by (auto simp: zeros_def not_digit_chars)

lemma length_zeros [simp]: "length (zeros m) = m"
  by (simp add: zeros_def)

lemma digit_char_0: "digit_char d = cu CHR ''0'' \<Longrightarrow> d < 10 \<Longrightarrow> d = 0"
proof -
  assume a: "digit_char d = cu CHR ''0''" "d < 10"
  then have "unat (digit_char d) = unat (cu CHR ''0'')" by simp
  with a(2) show "d = 0" by (simp add: unat_digit_char cu_def)
qed

lemma hd_dec_nat: "0 < s \<Longrightarrow> hd (dec_nat s) \<noteq> cu CHR ''0''"
proof (induction s rule: dec_nat.induct)
  case (1 n)
  show ?case
  proof (cases "n < 10")
    case True
    with 1(2) show ?thesis using digit_char_0 [of n]
      by (auto simp: dec_nat.simps [of n])
  next
    case False
    then have "0 < n div 10" by simp
    with 1(1) False have "hd (dec_nat (n div 10)) \<noteq> cu CHR ''0''" by simp
    with False show ?thesis
      by (simp add: dec_nat.simps [of n] dec_nat_not_Nil)
  qed
qed

lemma length_dec_nat: "10 ^ k \<le> s \<Longrightarrow> s < 10 ^ Suc k \<Longrightarrow> length (dec_nat s) = Suc k"
proof (induction k arbitrary: s)
  case 0
  then show ?case by (simp add: dec_nat.simps [of s])
next
  case (Suc k)
  have "(1::nat) \<le> 10 ^ k" by simp
  moreover from Suc.prems(1) have "10 * 10 ^ k \<le> s" by simp
  ultimately have big: "\<not> s < 10" by linarith
  from Suc.prems have "10 ^ k \<le> s div 10" "s div 10 < 10 ^ Suc k"
    by (simp_all add: less_mult_imp_div_less le_div_geq div_le_mono
          Suc_le_eq div_less_iff_less_mult less_eq_div_iff_mult_less_eq)
  then have "length (dec_nat (s div 10)) = Suc k" by (rule Suc.IH)
  with big show ?case by (simp add: dec_nat.simps [of s])
qed

subsection \<open>When the Number operators are exact\<close>

lemma is_double_cases:
  assumes "is_double x"
  obtains q where "x = Fin q" | "x = NegZero"
  using assms by (cases x) (simp_all add: is_double_def)

lemma js_add_exact:
  assumes "is_double x" "is_double (Fin (a + val x))"
  shows "js_add (Fin a) x = Fin (a + val x)"
proof -
  from assms(1) have fin: "x \<noteq> NaN" "\<not> is_inf x"
    by (auto elim: is_double_cases)
  show ?thesis
  proof (cases "a + val x = 0")
    case True
    with fin show ?thesis by (simp add: js_add_def)
  next
    case False
    with assms(2) have "round_to_double (a + val x < 0) \<bar>a + val x\<bar> = Fin (a + val x)"
      by (simp add: is_double_def)
    with False fin show ?thesis by (simp add: js_add_def Let_def)
  qed
qed

lemma foldl_js_add_exact:
  "exact_sum a xs \<Longrightarrow> foldl js_add (Fin a) xs = Fin (a + sum_list (map val xs))"
proof (induction xs arbitrary: a)
  case Nil
  show ?case by simp
next
  case (Cons x xs)
  from Cons.prems have "js_add (Fin a) x = Fin (a + val x)"
    by (simp add: js_add_exact)
  moreover from Cons.prems have "exact_sum (a + val x) xs" by simp
  ultimately show ?case using Cons.IH [of "a + val x"] by (simp add: add.assoc)
qed

lemma js_mul_exact:
  assumes "exact_product x y"
  shows "val (js_mul x y) = val x * val y" and "is_double (js_mul x y)"
proof -
  from assms have d: "is_double x" "is_double y" "is_double (Fin (val x * val y))"
    by (simp_all add: exact_product_def)
  from d(1,2) have fin: "x \<noteq> NaN" "y \<noteq> NaN" "\<not> is_inf x" "\<not> is_inf y"
    by (auto elim: is_double_cases)
  then have m: "js_mul x y = round_to_double (is_neg x \<noteq> is_neg y) (\<bar>val x\<bar> * \<bar>val y\<bar>)"
    by (simp add: js_mul_def)
  have "val (js_mul x y) = val x * val y \<and> is_double (js_mul x y)"
  proof (cases "val x * val y = 0")
    case True
    then have "\<bar>val x\<bar> * \<bar>val y\<bar> = 0" by auto
    with True show ?thesis
      by (simp add: m round_to_double_def signed_zero_def is_double_def)
  next
    case False
    then have nz: "val x \<noteq> 0" "val y \<noteq> 0" by auto
    with d(1,2) obtain a b where ab: "x = Fin a" "y = Fin b"
      by (auto elim!: is_double_cases)
    from nz have sign: "(is_neg x \<noteq> is_neg y) = (val x * val y < 0)"
      unfolding ab by (auto simp: mult_less_0_iff)
    from False d(3) have "round_to_double (val x * val y < 0) \<bar>val x * val y\<bar> = Fin (val x * val y)"
      by (simp add: is_double_def)
    then have "js_mul x y = Fin (val x * val y)"
      by (simp only: m sign abs_mult)
    with d(3) show ?thesis by simp
  qed
  then show "val (js_mul x y) = val x * val y" and "is_double (js_mul x y)" by blast+
qed

lemma aggregate_appends_empty:
  "aggregate (appends cs (s \<lparr> entries := [] \<rparr>))
     = (foldl js_add (Fin 0) (map (\<lambda>c. parseFloat (arg_hours c)) cs),
        foldl js_add (Fin 0)
          (map (\<lambda>c. js_mul (parseFloat (arg_hours c)) (parseFloat (arg_hourlyWage c))) cs))"
  by (simp add: aggregate_def entries_appends totalHours_appends totalIncome_sum_appends)

text \<open>
  C1, as the code has it. After any sequence of \<open>append\<close> calls on an empty ledger,
  \<open>totalHours\<close> and \<open>totalIncome\<close> are the sums, by the Number operator \<open>+\<close> in call
  order from \<open>0\<close>, of the parsed hours and of the products of parsed hours and wage.
  They are the arithmetic sums whenever no step rounds: the summands are finite and
  every partial sum in call order is a Number (and, for the income, every product is).
  On an empty ledger both are \<open>0\<close>.
\<close>

theorem aggregate_sums:
  "aggregate (appends cs (s \<lparr> entries := [] \<rparr>))
     = (foldl js_add (Fin 0) (map (\<lambda>c. parseFloat (arg_hours c)) cs),
        foldl js_add (Fin 0)
          (map (\<lambda>c. js_mul (parseFloat (arg_hours c)) (parseFloat (arg_hourlyWage c))) cs)) \<and>
   aggregate (s \<lparr> entries := [] \<rparr>) = (Fin 0, Fin 0) \<and>
   (exact_sum 0 (map (\<lambda>c. parseFloat (arg_hours c)) cs) \<longrightarrow>
      fst (aggregate (appends cs (s \<lparr> entries := [] \<rparr>)))
        = Fin (\<Sum>c\<leftarrow>cs. val (parseFloat (arg_hours c)))) \<and>
   ((\<forall>c \<in> set cs. exact_product (parseFloat (arg_hours c)) (parseFloat (arg_hourlyWage c))) \<and>
    exact_sum 0
      (map (\<lambda>c. js_mul (parseFloat (arg_hours c)) (parseFloat (arg_hourlyWage c))) cs) \<longrightarrow>
      snd (aggregate (appends cs (s \<lparr> entries := [] \<rparr>)))
        = Fin (\<Sum>c\<leftarrow>cs. val (parseFloat (arg_hours c)) * val (parseFloat (arg_hourlyWage c))))"
proof -
  let ?h = "\<lambda>c. parseFloat (arg_hours c)"
  let ?i = "\<lambda>c. js_mul (parseFloat (arg_hours c)) (parseFloat (arg_hourlyWage c))"
  have agg: "aggregate (appends cs (s \<lparr> entries := [] \<rparr>))
     = (foldl js_add (Fin 0) (map ?h cs), foldl js_add (Fin 0) (map ?i cs))"
    by (rule aggregate_appends_empty)
  have empty: "aggregate (s \<lparr> entries := [] \<rparr>) = (Fin 0, Fin 0)"
    by (simp add: aggregate_def totalHours_def totalIncome_sum_def)
  have hrs: "fst (aggregate (appends cs (s \<lparr> entries := [] \<rparr>))) = Fin (\<Sum>c\<leftarrow>cs. val (?h c))"
    if "exact_sum 0 (map ?h cs)"
    using foldl_js_add_exact [OF that] by (simp add: agg comp_def)
  have inc: "snd (aggregate (appends cs (s \<lparr> entries := [] \<rparr>)))
        = Fin (\<Sum>c\<leftarrow>cs. val (parseFloat (arg_hours c)) * val (parseFloat (arg_hourlyWage c)))"
    if p: "\<forall>c \<in> set cs. exact_product (parseFloat (arg_hours c)) (parseFloat (arg_hourlyWage c))"
      and e: "exact_sum 0 (map ?i cs)"
  proof -
    from p have "map (\<lambda>c. val (?i c)) cs
        = map (\<lambda>c. val (parseFloat (arg_hours c)) * val (parseFloat (arg_hourlyWage c))) cs"
      by (simp add: js_mul_exact(1))
    with foldl_js_add_exact [OF e] show ?thesis by (simp add: agg comp_def)
  qed
  from agg empty hrs inc show ?thesis by (simp only: simp_thms) blast
qed

lemma round_exact:
  assumes "0 < m" "m < 2 ^ 53" "- 1074 \<le> e" "of_int m * pow2 e < 2 ^ 1024"
  shows "round_to_double False (of_int m * pow2 e) = Fin (of_int m * pow2 e)"
proof -
  define a where "a = of_int m * pow2 e"
  define E where "E = max (ilog2 a) (- 1022)"
  from assms(1) have apos: "0 < a" by (simp add: a_def)
  from assms(2) have "(of_int m :: rat) < of_int (2 ^ 53)" by (simp only: of_int_less_iff)
  then have "(of_int m :: rat) < 2 ^ 53" by simp
  then have "a < 2 ^ 53 * pow2 e"
    unfolding a_def by (simp only: mult_less_cancel_right_pos pow2_pos)
  also have "2 ^ 53 * pow2 e = pow2 (int 53 + e)" by (simp only: pow2_add pow2_nat)
  finally have "ilog2 a < int 53 + e" using apos by (intro ilog2_less)
  with assms(3) have le: "E - 52 \<le> e" by (simp add: E_def)
  define j where "j = nat (e - (E - 52))"
  from le have "e = int j + (E - 52)" by (simp add: j_def)
  then have "pow2 e = pow2 (int j + (E - 52))" by simp
  then have pe: "pow2 e = 2 ^ j * pow2 (E - 52)" by (simp only: pow2_add pow2_nat)
  have nz: "pow2 (E - 52) \<noteq> 0" by (metis pow2_pos less_irrefl)
  then have "a / pow2 (E - 52) = of_int (m * 2 ^ j)"
    by (simp add: a_def pe)
  then have r1: "round_half_even (a / pow2 (E - 52)) = m * 2 ^ j"
    by (simp only: round_half_even_of_int)
  have r2: "of_int (m * 2 ^ j) * pow2 (E - 52) = a"
    by (simp add: a_def pe)
  from assms(4) have fin: "a < 2 ^ 1024" by (simp only: a_def)
  have mx: "max (ilog2 a) (- 1022) = E" by (simp only: E_def)
  show ?thesis
    unfolding a_def [symmetric] by (rule round_to_double_eq [OF apos mx r1 r2 apos fin])
qed

lemma is_double_nat:
  assumes "n < 2 ^ 53"
  shows "is_double (Fin (of_nat n))" and "round_to_double False (of_nat n) = Fin (of_nat n)"
proof -
  have "round_to_double False (of_nat n) = Fin (of_nat n)"
  proof (cases "n = 0")
    case True
    then show ?thesis by (simp add: round_to_double_def signed_zero_def)
  next
    case False
    from assms have "int n < 2 ^ 53" by (simp add: nat_less_iff flip: of_nat_less_iff)
    moreover then have "(of_int (int n) :: rat) < of_int (2 ^ 53)" by (simp only: of_int_less_iff)
    then have "(of_int (int n) :: rat) * pow2 0 < 2 ^ 53" by (simp add: pow2_def)
    then have "(of_int (int n) :: rat) * pow2 0 < 2 ^ 1024"
      by (rule less_trans) simp
    ultimately have "round_to_double False (of_int (int n) * pow2 0) = Fin (of_int (int n) * pow2 0)"
      using False by (intro round_exact) simp_all
    then show ?thesis by (simp add: pow2_def)
  qed
  then show "round_to_double False (of_nat n) = Fin (of_nat n)" .
  then show "is_double (Fin (of_nat n))" by (simp add: is_double_def)
qed

lemma doubles_sample:
  "is_double (Fin 2)" "is_double (Fin 4)" "is_double (Fin 6)" "is_double (Fin 1000)"
  "is_double (Fin 1500)" "is_double (Fin 3000)" "is_double (Fin 4000)" "is_double (Fin 7000)"
  using is_double_nat(1) [of 2] is_double_nat(1) [of 4] is_double_nat(1) [of 6]
    is_double_nat(1) [of 1000] is_double_nat(1) [of 1500] is_double_nat(1) [of 3000]
    is_double_nat(1) [of 4000] is_double_nat(1) [of 7000]
  by simp_all

lemma round_sample:
  "round_to_double False 2 = Fin 2" "round_to_double False 1500 = Fin 1500"
  "round_to_double False 3000 = Fin 3000" "round_to_double False 1 = Fin 1"
  using is_double_nat(2) [of 2] is_double_nat(2) [of 1500] is_double_nat(2) [of 3000]
    is_double_nat(2) [of 1]
  by simp_all

lemma p2: "parseFloat (js ''2'') = Fin 2"
  by (simp add: parse_defs round_sample)

lemma p1500: "parseFloat (js ''1500'') = Fin 1500"
  by (simp add: parse_defs round_sample)

lemma m2: "js_mul (Fin 2) (Fin 1500) = Fin 3000"
  by (simp add: js_mul_def round_sample)

theorem aggregate_sums_witness:
  "exact_sum 0 (map (\<lambda>c. parseFloat (arg_hours c)) [acme_call, beta_call]) \<and>
   exact_product (parseFloat (arg_hours acme_call)) (parseFloat (arg_hourlyWage acme_call)) \<and>
   exact_product (parseFloat (arg_hours beta_call)) (parseFloat (arg_hourlyWage beta_call)) \<and>
   exact_sum 0 (map (\<lambda>c. js_mul (parseFloat (arg_hours c)) (parseFloat (arg_hourlyWage c)))
      [acme_call, beta_call]) \<and>
   aggregate (appends [acme_call, beta_call] fresh_app) = (Fin 6, Fin 7000)"
proof -
  let ?cs = "[acme_call, beta_call]"
  have h: "map (\<lambda>c. parseFloat (arg_hours c)) ?cs = [Fin 4, Fin 2]"
    by (simp add: acme_call_def beta_call_def p4 p2)
  have w: "map (\<lambda>c. parseFloat (arg_hourlyWage c)) ?cs = [Fin 1000, Fin 1500]"
    by (simp add: acme_call_def beta_call_def p1000 p1500)
  have i: "map (\<lambda>c. js_mul (parseFloat (arg_hours c)) (parseFloat (arg_hourlyWage c))) ?cs
      = [Fin 4000, Fin 3000]"
    by (simp add: acme_call_def beta_call_def p4 p2 p1000 p1500 m4 m2)
  have e1: "exact_sum 0 (map (\<lambda>c. parseFloat (arg_hours c)) ?cs)"
    unfolding h by (simp add: doubles_sample)
  have e2: "\<forall>c \<in> set ?cs. exact_product (parseFloat (arg_hours c)) (parseFloat (arg_hourlyWage c))"
    by (simp add: acme_call_def beta_call_def p4 p2 p1000 p1500 exact_product_def doubles_sample)
  have e3: "exact_sum 0
      (map (\<lambda>c. js_mul (parseFloat (arg_hours c)) (parseFloat (arg_hourlyWage c))) ?cs)"
    unfolding i by (simp add: doubles_sample)
  have f: "fresh_app \<lparr> entries := [] \<rparr> = fresh_app" by (simp add: fresh_app_def)
  from e1 aggregate_sums [of ?cs fresh_app]
  have a1: "fst (aggregate (appends ?cs fresh_app)) = Fin (\<Sum>c\<leftarrow>?cs. val (parseFloat (arg_hours c)))"
    unfolding f by blast
  from e2 e3 aggregate_sums [of ?cs fresh_app]
  have a2: "snd (aggregate (appends ?cs fresh_app))
      = Fin (\<Sum>c\<leftarrow>?cs. val (parseFloat (arg_hours c)) * val (parseFloat (arg_hourlyWage c)))"
    unfolding f by blast
  have "(\<Sum>c\<leftarrow>?cs. val (parseFloat (arg_hours c))) = 6"
    by (simp add: acme_call_def beta_call_def p4 p2)
  moreover have "(\<Sum>c\<leftarrow>?cs. val (parseFloat (arg_hours c)) * val (parseFloat (arg_hourlyWage c))) = 7000"
    by (simp add: acme_call_def beta_call_def p4 p2 p1000 p1500)
  ultimately have "aggregate (appends ?cs fresh_app) = (Fin 6, Fin 7000)"
    using a1 a2 by (simp add: prod_eq_iff)
  with e1 e2 e3 show ?thesis by simp
qed

text \<open>
  The wording of C1, the arithmetic sum for every sequence of calls, fails where a step
  rounds: with hours \<open>2\<^sup>5\<^sup>3\<close>, \<open>1\<close> and \<open>1\<close> each addition of \<open>1\<close> is rounded away and
  \<open>totalHours\<close> stays \<open>2\<^sup>5\<^sup>3\<close>, while the arithmetic sum \<open>2\<^sup>5\<^sup>3 + 2\<close> is a Number.
\<close>

theorem aggregate_sums_counterexample:
  "fst (aggregate (appends big_calls fresh_app)) = Fin 9007199254740992 \<and>
   (\<Sum>c\<leftarrow>big_calls. val (parseFloat (arg_hours c))) = 9007199254740994 \<and>
   is_double (Fin 9007199254740994) \<and>
   fst (aggregate (appends big_calls fresh_app))
     \<noteq> Fin (\<Sum>c\<leftarrow>big_calls. val (parseFloat (arg_hours c)))"
proof -
  have r53: "round_to_double False 9007199254740992 = Fin 9007199254740992"
    using round_exact [of "2 ^ 52" 1] by (simp add: pow2_def)
  have p53: "parseFloat (js ''9007199254740992'') = Fin 9007199254740992"
    by (simp add: parse_defs r53)
  have p1: "parseFloat (js ''1'') = Fin 1"
    by (simp add: parse_defs round_sample)
  have il: "ilog2 9007199254740993 = 53"
    by (rule ilog2_unique) (simp_all add: pow2_def)
  have fl: "\<lfloor>9007199254740993 / 2 :: rat\<rfloor> = 4503599627370496"
    by (rule floor_unique) simp_all
  have rh: "round_half_even (9007199254740993 / 2) = 4503599627370496"
    by (simp add: round_half_even_def Let_def fl)
  have r: "round_to_double False 9007199254740993 = Fin 9007199254740992"
    by (rule round_to_double_eq [where E = 53 and M = 4503599627370496])
       (simp_all add: il pow2_def rh)
  have a0: "js_add (Fin 0) (Fin 9007199254740992) = Fin 9007199254740992"
    by (simp add: js_add_def r53)
  have a1: "js_add (Fin 9007199254740992) (Fin 1) = Fin 9007199254740992"
    by (simp add: js_add_def r)
  have h: "map (\<lambda>c. parseFloat (arg_hours c)) big_calls
      = [Fin 9007199254740992, Fin 1, Fin 1]"
    by (simp add: big_calls_def p53 p1)
  have f: "fresh_app \<lparr> entries := [] \<rparr> = fresh_app" by (simp add: fresh_app_def)
  have "fst (aggregate (appends big_calls fresh_app))
      = foldl js_add (Fin 0) (map (\<lambda>c. parseFloat (arg_hours c)) big_calls)"
    using aggregate_appends_empty [of big_calls fresh_app] unfolding f by simp
  then have total: "fst (aggregate (appends big_calls fresh_app)) = Fin 9007199254740992"
    unfolding h by (simp add: a0 a1)
  have "(\<Sum>c\<leftarrow>big_calls. val (parseFloat (arg_hours c)))
      = sum_list (map val (map (\<lambda>c. parseFloat (arg_hours c)) big_calls))"
    by (simp add: comp_def)
  then have sum: "(\<Sum>c\<leftarrow>big_calls. val (parseFloat (arg_hours c))) = 9007199254740994"
    unfolding h by simp
  have "round_to_double False (of_int (2 ^ 52 + 1) * pow2 1) = Fin (of_int (2 ^ 52 + 1) * pow2 1)"
    by (rule round_exact) (simp_all add: pow2_def)
  then have d: "is_double (Fin 9007199254740994)"
    by (simp add: is_double_def pow2_def)
  from total sum d show ?thesis by simp
qed

section \<open>Construction from persistent storage\<close>

lemma JSON_parse_brace: "JSON_parse (js ''{'') = Inl SyntaxError"
  by (simp add: JSON_parse_def js_def skip_ws_def is_ws_def cu_def eval_nat_numeral)

lemma construct_absent: "st storage_key = None \<Longrightarrow> construct st = Ledger []"
  by (simp add: construct_def initial_entries_def as_TimeEntries_def)

lemma construct_empty_text: "st storage_key = Some [] \<Longrightarrow> construct st = Ledger []"
  by (simp add: construct_def initial_entries_def as_TimeEntries_def)

lemma construct_unparseable:
  "st storage_key = Some saved \<Longrightarrow> saved \<noteq> [] \<Longrightarrow> JSON_parse saved = Inl err \<Longrightarrow>
   construct st = Raised err"
  by (simp add: construct_def initial_entries_def)

text \<open>
  C4, as the code has it. Construction reads the blob under the one key
  \<open>timeEntries\<close> and nothing else of the storage. When the key is absent, or holds the
  empty text, construction raises nothing and the ledger starts empty. An unparseable
  blob is not recovered: \<open>JSON.parse\<close> is called outside any \<open>try\<close>, and construction
  raises its \<open>SyntaxError\<close>.
\<close>

theorem construct_from_storage:
  "(st storage_key = None \<longrightarrow> construct st = Ledger []) \<and>
   (st storage_key = Some [] \<longrightarrow> construct st = Ledger []) \<and>
   (st storage_key = Some saved \<and> saved \<noteq> [] \<and> JSON_parse saved = Inl SyntaxError \<longrightarrow>
      construct st = Raised SyntaxError) \<and>
   (st storage_key = st' storage_key \<longrightarrow> construct st = construct st')"
proof -
  have "construct st = construct st'" if "st storage_key = st' storage_key"
    using that by (simp add: construct_def initial_entries_def)
  then show ?thesis
    using construct_absent construct_empty_text construct_unparseable by blast
qed

theorem construct_from_storage_witness:
  "Map.empty storage_key = None \<and> construct Map.empty = Ledger [] \<and>
   [storage_key \<mapsto> []] storage_key = Some [] \<and> construct [storage_key \<mapsto> []] = Ledger [] \<and>
   [storage_key \<mapsto> js ''{''] storage_key = Some (js ''{'') \<and> js ''{'' \<noteq> [] \<and>
   JSON_parse (js ''{'') = Inl SyntaxError \<and>
   construct [storage_key \<mapsto> js ''{''] = Raised SyntaxError \<and>
   [storage_key \<mapsto> js ''{''] storage_key = [storage_key \<mapsto> js ''{'', js ''other'' \<mapsto> []] storage_key \<and>
   construct [storage_key \<mapsto> js ''{'']
     = construct [storage_key \<mapsto> js ''{'', js ''other'' \<mapsto> []]"
proof -
  have k: "js ''other'' \<noteq> storage_key" by (simp add: storage_key_def js_def cu_def)
  have 1: "construct Map.empty = Ledger []"
    using construct_from_storage [of Map.empty] by simp
  have 2: "construct [storage_key \<mapsto> []] = Ledger []"
    using construct_from_storage [of "[storage_key \<mapsto> []]"] by simp
  have 3: "construct [storage_key \<mapsto> js ''{''] = Raised SyntaxError"
    using construct_from_storage [of "[storage_key \<mapsto> js ''{'']" "js ''{''"] JSON_parse_brace
    by (simp add: js_def)
  have 4: "construct [storage_key \<mapsto> js ''{'']
     = construct [storage_key \<mapsto> js ''{'', js ''other'' \<mapsto> []]"
    using construct_from_storage [of "[storage_key \<mapsto> js ''{'']" _
      "[storage_key \<mapsto> js ''{'', js ''other'' \<mapsto> []]"] k
    by simp
  from 1 2 3 4 k JSON_parse_brace show ?thesis by (simp add: js_def)
qed

text \<open>
  The wording of C4, an unparseable blob gives the empty ledger and no error, fails for
  the stored text \<open>{\<close>: construction raises the \<open>SyntaxError\<close>.
\<close>

theorem construct_counterexample:
  "construct [storage_key \<mapsto> js ''{''] = Raised SyntaxError \<and>
   construct [storage_key \<mapsto> js ''{''] \<noteq> Ledger []"
  using construct_unparseable [of "[storage_key \<mapsto> js ''{'']" "js ''{''" SyntaxError]
    JSON_parse_brace
  by (simp add: js_def)

section \<open>Reading the ledger\<close>

lemma dispatch_read:
  "\<not> sets_entries ev \<Longrightarrow>
   entries (app (dispatch ev w)) = entries (app w) \<and> storage (dispatch ev w) = storage w"
  by (cases ev) (simp_all add: dispatch_def Let_def)

lemma run_reads:
  "\<forall>ev \<in> set evs. \<not> sets_entries ev \<Longrightarrow>
   entries (app (run evs w)) = entries (app w) \<and> storage (run evs w) = storage w"
  unfolding run_def
proof (induction evs arbitrary: w)
  case Nil
  show ?case by simp
next
  case (Cons ev evs)
  then have "\<not> sets_entries ev" "\<forall>ev \<in> set evs. \<not> sets_entries ev" by simp_all
  with Cons.IH [of "dispatch ev w"] dispatch_read [of ev w] show ?case by simp
qed

text \<open>
  C9. \<open>list()\<close> is the cell \<open>entries\<close> and \<open>aggregate()\<close> the two sums that each render
  computes from it. With no mutation in between, whatever other events are handled and
  however often the component renders, they return the same results, and the ledger and
  the persistent storage stay as they were: only the handlers of submit and delete set
  \<open>entries\<close>, and only then does the effect write the storage.
\<close>

theorem reads_are_pure:
  "(\<forall>ev \<in> set evs. \<not> sets_entries ev) \<longrightarrow>
     entries (app (run evs w)) = entries (app w) \<and>
     aggregate (app (run evs w)) = aggregate (app w) \<and>
     storage (run evs w) = storage w"
  using run_reads [of evs w] by (simp add: aggregate_def)

theorem reads_are_pure_witness:
  "\<not> sets_entries (ChangeView GraphView) \<and> \<not> sets_entries (ChangeHours (js ''4'')) \<and>
   entries (app (run [ChangeView GraphView, ChangeHours (js ''4'')]
      \<lparr> app = append_entry acme_call fresh_app, storage = Map.empty \<rparr>))
     = entries (append_entry acme_call fresh_app) \<and>
   aggregate (app (run [ChangeView GraphView, ChangeHours (js ''4'')]
      \<lparr> app = append_entry acme_call fresh_app, storage = Map.empty \<rparr>))
     = aggregate (append_entry acme_call fresh_app) \<and>
   storage (run [ChangeView GraphView, ChangeHours (js ''4'')]
      \<lparr> app = append_entry acme_call fresh_app, storage = Map.empty \<rparr>) = Map.empty"
  using reads_are_pure [of "[ChangeView GraphView, ChangeHours (js ''4'')]"
      "\<lparr> app = append_entry acme_call fresh_app, storage = Map.empty \<rparr>"]
  by simp

lemma pow10_0 [simp]: "pow10 0 = 1"
  by (simp add: pow10_def)

lemma parse_number_both:
  assumes "number_int u = (ip, r1)" "ip \<noteq> []" "number_frac r1 = Some (fp, r2)"
    "number_exp r2 = Some (ex, r3)" "u = [] \<or> hd u \<noteq> cu CHR ''-''"
    "of_nat (digits_val (ip @ fp)) * pow10 (ex - int (length fp)) = V"
  shows "parse_number u = Some (round_to_double False V, r3) \<and>
         parse_number (cu CHR ''-'' # u) = Some (round_to_double True V, r3)"
  using parse_number_parts(1) [OF assms(1-4) assms(5)] parse_number_parts(2) [OF assms(1-4)]
  by (simp only: assms(6))

lemma parse_format_digits:
  assumes k: "1 \<le> k" "10 ^ (k - 1) \<le> s" "s < 10 ^ k" and t: "ends_number t"
  shows "parse_number (format_digits k s n @ t)
           = Some (round_to_double False (of_nat s * pow10 (n - int k)), t) \<and>
         parse_number (cu CHR ''-'' # format_digits k s n @ t)
           = Some (round_to_double True (of_nat s * pow10 (n - int k)), t)"
proof -
  define ds where "ds = dec_nat s"
  from k(1) have kk: "Suc (k - 1) = k" by simp
  from k(2,3) have len: "length ds = k"
    unfolding ds_def using length_dec_nat [of "k - 1" s] by (simp only: kk)
  have dg: "\<forall>c \<in> set ds. is_digit c" unfolding ds_def using dec_nat_digits by blast
  have "(1::nat) \<le> 10 ^ (k - 1)" by simp
  with k(2) have spos: "0 < s" by linarith
  then have hd0: "hd ds \<noteq> cu CHR ''0''" unfolding ds_def by (rule hd_dec_nat)
  have ne: "ds \<noteq> []" unfolding ds_def by (rule dec_nat_not_Nil)
  have val: "digits_val ds = s" unfolding ds_def by (rule digits_val_dec_nat)
  from ne dg have hdd: "is_digit (hd ds)" by simp
  then have hdm: "hd ds \<noteq> cu CHR ''-''" using not_digit_chars(4) by auto
  from t have nd: "t = [] \<or> \<not> is_digit (hd t)" by (auto simp: ends_number_def)
  from t have fr: "number_frac t = Some ([], t)"
    by (intro number_frac_none) (auto simp: ends_number_def)
  from t have ex: "number_exp t = Some (0, t)"
    by (intro number_exp_none) (auto simp: ends_number_def)
  have nde: "exponent_text e @ t = [] \<or> \<not> is_digit (hd (exponent_text e @ t))" for e
    by (simp add: exponent_text_def not_digit_chars)
  have fre: "number_frac (exponent_text e @ t) = Some ([], exponent_text e @ t)" for e
    by (rule number_frac_none) (simp add: exponent_text_def cu_def)
  consider (A) "int k \<le> n" "n \<le> 21"
    | (B) "\<not> int k \<le> n" "0 < n" "n \<le> 21"
    | (C) "\<not> 0 < n" "- 6 < n"
    | (D) "\<not> (int k \<le> n \<and> n \<le> 21)" "\<not> (0 < n \<and> n \<le> 21)" "\<not> (- 6 < n \<and> n \<le> 0)" "k = 1"
    | (E) "\<not> (int k \<le> n \<and> n \<le> 21)" "\<not> (0 < n \<and> n \<le> 21)" "\<not> (- 6 < n \<and> n \<le> 0)" "k \<noteq> 1"
    by linarith
  then show ?thesis
  proof cases
    case A
    define m where "m = nat (n - int k)"
    from A have shape: "format_digits k s n @ t = (ds @ zeros m) @ t"
      by (simp add: format_digits_def Let_def ds_def m_def)
    have ni: "number_int ((ds @ zeros m) @ t) = (ds @ zeros m, t)"
      using ne dg hd0 nd zeros_digits by (intro number_int_eq) auto
    have h: "(ds @ zeros m) @ t = [] \<or> hd ((ds @ zeros m) @ t) \<noteq> cu CHR ''-''"
      using ne hdm by simp
    from A have "pow10 (n - int k) = 10 ^ m"
      unfolding m_def using pow10_nat [of "nat (n - int k)"] by simp
    then have v: "of_nat (digits_val ((ds @ zeros m) @ [])) * pow10 (0 - int (length ([]::jsstring)))
        = of_nat s * pow10 (n - int k)"
      by (simp add: digits_val_append val)
    have ipne: "ds @ zeros m \<noteq> []" using ne by simp
    show ?thesis
      unfolding shape by (rule parse_number_both [OF ni ipne fr ex h v])
  next
    case B
    define j where "j = nat n"
    from B len have j: "0 < j" "j < length ds" "int j = n" by (simp_all add: j_def)
    from B k(1) have shape: "format_digits k s n @ t = take j ds @ (cu CHR ''.'' # drop j ds @ t)"
      by (simp add: format_digits_def Let_def ds_def j_def)
    from j ne have tne: "take j ds \<noteq> []" "drop j ds \<noteq> []" by simp_all
    from j ne have hdt: "hd (take j ds) = hd ds" by (cases ds) (simp_all add: take_Suc)
    have ni: "number_int (take j ds @ (cu CHR ''.'' # drop j ds @ t))
                = (take j ds, cu CHR ''.'' # drop j ds @ t)"
      using tne dg hd0 hdt not_digit_chars(1) by (intro number_int_eq) (auto dest: in_set_takeD)
    have nf: "number_frac (cu CHR ''.'' # drop j ds @ t) = Some (drop j ds, t)"
      using tne dg nd by (intro number_frac_some) (auto dest: in_set_dropD)
    have h: "take j ds @ (cu CHR ''.'' # drop j ds @ t) = []
        \<or> hd (take j ds @ (cu CHR ''.'' # drop j ds @ t)) \<noteq> cu CHR ''-''"
      using tne hdt hdm by simp
    from j len have "int (length (drop j ds)) = int k - n" by simp
    then have v: "of_nat (digits_val (take j ds @ drop j ds)) * pow10 (0 - int (length (drop j ds)))
        = of_nat s * pow10 (n - int k)"
      by (simp add: val)
    show ?thesis
      unfolding shape by (rule parse_number_both [OF ni tne(1) nf ex h v])
  next
    case C
    define m where "m = nat (- n)"
    from C k(1) have shape: "format_digits k s n @ t
        = [cu CHR ''0''] @ (cu CHR ''.'' # (zeros m @ ds) @ t)"
      by (simp add: format_digits_def Let_def ds_def m_def js_def)
    have ni: "number_int ([cu CHR ''0''] @ (cu CHR ''.'' # (zeros m @ ds) @ t))
                = ([cu CHR ''0''], cu CHR ''.'' # (zeros m @ ds) @ t)"
      using not_digit_chars by (intro number_int_eq) auto
    have nf: "number_frac (cu CHR ''.'' # (zeros m @ ds) @ t) = Some (zeros m @ ds, t)"
      using ne dg nd zeros_digits by (intro number_frac_some) auto
    have h: "[cu CHR ''0''] @ (cu CHR ''.'' # (zeros m @ ds) @ t) = []
        \<or> hd ([cu CHR ''0''] @ (cu CHR ''.'' # (zeros m @ ds) @ t)) \<noteq> cu CHR ''-''"
      by (simp add: cu_def)
    from C len have "int (length (zeros m @ ds)) = int k - n" by (simp add: m_def)
    moreover have "digits_val ([cu CHR ''0''] @ zeros m @ ds) = s"
      using digits_val_append [of "[cu CHR ''0'']" "zeros m @ ds"]
        digits_val_append [of "zeros m" ds] digits_val_snoc [of "[]" "cu CHR ''0''"]
      by (simp add: val digit_val_0)
    ultimately have v: "of_nat (digits_val ([cu CHR ''0''] @ zeros m @ ds))
        * pow10 (0 - int (length (zeros m @ ds))) = of_nat s * pow10 (n - int k)"
      by simp
    have ipne: "[cu CHR ''0''] \<noteq> []" by simp
    show ?thesis
      unfolding shape by (rule parse_number_both [OF ni ipne nf ex h v])
  next
    case D
    from D(4) have k1: "(k = 1) = True" by simp
    have shape: "format_digits k s n @ t = ds @ (exponent_text (n - 1) @ t)"
      unfolding format_digits_def Let_def
      by (simp only: D(1-3) k1 if_False if_True) (simp add: ds_def)
    have ni: "number_int (ds @ (exponent_text (n - 1) @ t)) = (ds, exponent_text (n - 1) @ t)"
      using ne dg hd0 nde [of "n - 1"] by (intro number_int_eq) auto
    have ne': "number_exp (exponent_text (n - 1) @ t) = Some (n - 1, t)"
      using nd by (rule number_exp_some)
    have h: "ds @ (exponent_text (n - 1) @ t) = []
        \<or> hd (ds @ (exponent_text (n - 1) @ t)) \<noteq> cu CHR ''-''"
      using ne hdm by simp
    from D(4) have v: "of_nat (digits_val (ds @ [])) * pow10 (n - 1 - int (length ([]::jsstring)))
        = of_nat s * pow10 (n - int k)"
      by (simp add: val)
    show ?thesis
      unfolding shape by (rule parse_number_both [OF ni ne fre ne' h v])
  next
    case E
    with k(1) len have k2: "2 \<le> length ds" by simp
    from ne obtain c cs where ds1: "ds = c # cs" by (cases ds) auto
    with k2 have "cs \<noteq> []" by auto
    with ds1 have ds: "ds = c # cs" "cs \<noteq> []" by simp_all
    from E(4) have k1: "(k = 1) = False" by simp
    have shape: "format_digits k s n @ t
        = [c] @ (cu CHR ''.'' # cs @ (exponent_text (n - 1) @ t))"
      unfolding format_digits_def Let_def
      by (simp only: E(1-3) k1 if_False ds_def [symmetric]) (simp add: ds)
    have ni: "number_int ([c] @ (cu CHR ''.'' # cs @ (exponent_text (n - 1) @ t)))
                = ([c], cu CHR ''.'' # cs @ (exponent_text (n - 1) @ t))"
      using dg hd0 not_digit_chars(1) unfolding ds by (intro number_int_eq) auto
    have nf: "number_frac (cu CHR ''.'' # cs @ (exponent_text (n - 1) @ t))
                = Some (cs, exponent_text (n - 1) @ t)"
      using ds(2) dg nde [of "n - 1"] unfolding ds by (intro number_frac_some) auto
    have ne': "number_exp (exponent_text (n - 1) @ t) = Some (n - 1, t)"
      using nd by (rule number_exp_some)
    have h: "[c] @ (cu CHR ''.'' # cs @ (exponent_text (n - 1) @ t)) = []
        \<or> hd ([c] @ (cu CHR ''.'' # cs @ (exponent_text (n - 1) @ t))) \<noteq> cu CHR ''-''"
      using hdm unfolding ds by simp
    from len ds have "int (length cs) = int k - 1" by simp
    then have v: "of_nat (digits_val ([c] @ cs)) * pow10 (n - 1 - int (length cs))
        = of_nat s * pow10 (n - int k)"
      using val unfolding ds by simp
    have ipne: "[c] \<noteq> []" by simp
    show ?thesis
      unfolding shape by (rule parse_number_both [OF ni ipne nf ne' h v])
  qed
qed

lemma round_sign:
  "a \<noteq> 0 \<Longrightarrow> round_to_double False v = Fin a \<Longrightarrow> round_to_double True v = Fin (- a)"
  unfolding round_to_double_def Let_def
  by (auto simp: signed_zero_def infinity_def split: if_splits)

lemma round_sign':
  "q \<noteq> 0 \<Longrightarrow> round_to_double True v = Fin q \<Longrightarrow> round_to_double False v = Fin (- q)"
  unfolding round_to_double_def Let_def
  by (auto simp: signed_zero_def infinity_def split: if_splits)

lemma parse_toString_pos:
  assumes "0 < a" "round_to_double False a = Fin a" "ends_number t"
  shows "parse_number (toString_pos a @ t) = Some (Fin a, t) \<and>
         parse_number (cu CHR ''-'' # toString_pos a @ t) = Some (Fin (- a), t)"
proof -
  obtain k s where ks: "shortest 16 1 a = (k, s)" by (cases "shortest 16 1 a")
  define n where "n = ilog10 a + 1"
  have "16 + 1 = (17::nat)" "(1::nat) \<le> 1" by simp_all
  from shortest_correct [OF assms(1,2) this ks]
  have k: "1 \<le> k" "10 ^ (k - 1) \<le> s" "s \<le> 10 ^ k"
    and r: "round_to_double False (of_nat s * pow10 (n - int k)) = Fin a"
    by (simp_all add: n_def)
  from assms(1) have nz: "a \<noteq> 0" by simp
  note rt = round_sign [OF nz r]
  show ?thesis
  proof (cases "s = 10 ^ k")
    case True
    have ts: "toString_pos a = format_digits 1 1 (n + 1)"
      unfolding toString_pos_def ks by (simp add: Let_def n_def True)
    have "pow10 (int k + (n - int k)) = pow10 (int k) * pow10 (n - int k)"
      by (rule pow10_add)
    then have "of_nat s * pow10 (n - int k) = pow10 n"
      unfolding True by (simp add: pow10_nat)
    then have v: "of_nat 1 * pow10 (n + 1 - int 1) = of_nat s * pow10 (n - int k)"
      by simp
    have "parse_number (format_digits 1 1 (n + 1) @ t)
           = Some (round_to_double False (of_nat 1 * pow10 (n + 1 - int 1)), t) \<and>
         parse_number (cu CHR ''-'' # format_digits 1 1 (n + 1) @ t)
           = Some (round_to_double True (of_nat 1 * pow10 (n + 1 - int 1)), t)"
      by (rule parse_format_digits [OF _ _ _ assms(3)]) simp_all
    then show ?thesis
      unfolding v ts r rt .
  next
    case False
    with k(3) have lt: "s < 10 ^ k" by simp
    have ts: "toString_pos a = format_digits k s n"
      unfolding toString_pos_def ks by (simp add: Let_def n_def False)
    from parse_format_digits [OF k(1,2) lt assms(3), of n]
    show ?thesis unfolding ts r rt .
  qed
qed

lemma parse_zero:
  assumes "ends_number t"
  shows "parse_number (js ''0'' @ t) = Some (Fin 0, t)"
proof -
  from assms have nd: "t = [] \<or> \<not> is_digit (hd t)" by (auto simp: ends_number_def)
  have ni: "number_int ([cu CHR ''0''] @ t) = ([cu CHR ''0''], t)"
    using nd not_digit_chars by (intro number_int_eq) auto
  from assms have fr: "number_frac t = Some ([], t)"
    by (intro number_frac_none) (auto simp: ends_number_def)
  from assms have ex: "number_exp t = Some (0, t)"
    by (intro number_exp_none) (auto simp: ends_number_def)
  have h: "[cu CHR ''0''] @ t = [] \<or> hd ([cu CHR ''0''] @ t) \<noteq> cu CHR ''-''"
    by (simp add: cu_def)
  have v: "of_nat (digits_val ([cu CHR ''0''] @ [])) * pow10 (0 - int (length ([]::jsstring))) = 0"
    using digits_val_snoc [of "[]" "cu CHR ''0''"] by (simp add: digit_val_0)
  have ipne: "[cu CHR ''0''] \<noteq> []" by simp
  from parse_number_both [OF ni ipne fr ex h v]
  show ?thesis by (simp add: js_def round_to_double_def signed_zero_def)
qed

text \<open>
  The notation that \<open>JSON.stringify\<close> writes for a finite Number is read back as that
  Number, and \<open>-0\<close> as \<open>0\<close>.
\<close>

lemma parse_stringify_number:
  assumes "is_double x" "ends_number t"
  shows "parse_number (stringify_number x @ t) = Some (reloaded x, t)"
proof -
  from assms(1) consider (nz) "x = NegZero" | (z) "x = Fin 0"
    | (pos) q where "x = Fin q" "0 < q" | (neg) q where "x = Fin q" "q < 0"
    by (cases x) (auto simp: is_double_def intro: linorder_cases)
  then show ?thesis
  proof cases
    case nz
    then show ?thesis by (simp add: stringify_number_def reloaded_def parse_zero [OF assms(2)])
  next
    case z
    then show ?thesis by (simp add: stringify_number_def reloaded_def parse_zero [OF assms(2)])
  next
    case pos
    with assms(1) have "round_to_double False q = Fin q" by (simp add: is_double_def)
    from parse_toString_pos [OF pos(2) this assms(2)] pos show ?thesis
      by (simp add: stringify_number_def reloaded_def)
  next
    case neg
    with assms(1) have "round_to_double True (- q) = Fin q" by (simp add: is_double_def)
    moreover from neg have "q \<noteq> 0" by simp
    ultimately have "round_to_double False (- q) = Fin (- q)" by (rule round_sign' [rotated])
    moreover from neg have "0 < - q" by simp
    ultimately have "parse_number (cu CHR ''-'' # toString_pos (- q) @ t) = Some (Fin (- (- q)), t)"
      using parse_toString_pos [of "- q" t] assms(2) by blast
    with neg show ?thesis
      by (simp add: stringify_number_def reloaded_def)
  qed
qed

subsection \<open>Reading values and members\<close>

lemma skip_ws_Cons: "\<not> is_ws c \<Longrightarrow> skip_ws (c # r) = c # r"
  by (simp add: skip_ws_def)

lemma parse_chars_quoted: "parse_chars (quote_units s @ 0x22 # t) = Some (s, t)"
  using parse_chars_quote_units [of s t] by (simp add: cu_eval)

lemma parse_value_string:
  "parse_value (Suc n) (0x22 # quote_units v @ 0x22 # t) = Parsed (JString v, t)"
  by (simp add: parse_chars_quoted cu_def del: parse_chars.simps)

lemma parse_number_first:
  assumes "parse_number s = Some r"
  shows "s \<noteq> [] \<and> (hd s = cu CHR ''-'' \<or> is_digit (hd s))"
proof (cases "s \<noteq> [] \<and> hd s = cu CHR ''-''")
  case True
  then show ?thesis by simp
next
  case False
  obtain ip r1 where ni: "number_int s = (ip, r1)" by (cases "number_int s")
  with assms False have ne: "ip \<noteq> []"
    unfolding parse_number_def Let_def by (auto split: if_splits)
  have "s \<noteq> [] \<and> is_digit (hd s)"
  proof (cases "s \<noteq> [] \<and> hd s = cu CHR ''0''")
    case True
    then show ?thesis using not_digit_chars(8) by simp
  next
    case False
    with ni have "ip = takeWhile is_digit s" by (auto simp: number_int_def)
    with ne show ?thesis by (cases s) (auto split: if_splits)
  qed
  then show ?thesis by simp
qed

lemma digit_or_minus:
  assumes "c = cu CHR ''-'' \<or> is_digit c"
  shows "c \<noteq> cu CHR ''['' " "c \<noteq> cu CHR ''{''" "c \<noteq> cu CHR 0x22" "c \<noteq> cu CHR ''t''"
    "c \<noteq> cu CHR ''f''" "c \<noteq> cu CHR ''n''" "\<not> is_ws c"
  using assms
  by (auto simp: is_digit_def cu_def is_ws_def word_le_nat_alt)

lemma parse_value_number:
  assumes "parse_number s = Some (x, t)"
  shows "parse_value (Suc n) s = Parsed (JNumber x, t)"
proof -
  from parse_number_first [OF assms] obtain c r where s: "s = c # r"
    and c: "c = cu CHR ''-'' \<or> is_digit c"
    by (cases s) auto
  note d = digit_or_minus [OF c]
  have t4: "take 4 s \<noteq> js ''true''" "take 4 s \<noteq> js ''null''" "take 5 s \<noteq> js ''false''"
    using d(4,5,6) unfolding s by (auto simp: js_def take_Cons')
  show ?thesis
    using assms t4 d(1,2,3) unfolding s
    by (simp del: parse_chars.simps)
qed

lemma parse_value_null:
  "parse_value (Suc n) (js ''null'' @ t) = Parsed (JNull, t)"
  by (simp add: js_def cu_def del: parse_chars.simps)

lemma parse_members_step:
  assumes "parse_value n (vt @ 0x2C # rest) = Parsed (v, 0x2C # rest)"
    "skip_ws (vt @ 0x2C # rest) = vt @ 0x2C # rest"
  shows "parse_members (Suc n) acc (0x22 # quote_units k @ 0x22 # 0x3A # vt @ 0x2C # rest)
           = parse_members n (set_property k v acc) (skip_ws rest)"
proof -
  have ws: "\<not> is_ws 0x3A" "\<not> is_ws 0x2C" by (simp_all add: is_ws_def)
  show ?thesis
    by (subst parse_members.simps)
       (simp add: parse_chars_quoted skip_ws_Cons ws assms cu_def del: parse_chars.simps)
qed

lemma parse_members_last:
  assumes "parse_value n (vt @ 0x7D # rest) = Parsed (v, 0x7D # rest)"
    "skip_ws (vt @ 0x7D # rest) = vt @ 0x7D # rest"
  shows "parse_members (Suc n) acc (0x22 # quote_units k @ 0x22 # 0x3A # vt @ 0x7D # rest)
           = Parsed (JObject (set_property k v acc), rest)"
proof -
  have ws: "\<not> is_ws 0x3A" "\<not> is_ws 0x7D" by (simp_all add: is_ws_def)
  show ?thesis
    by (subst parse_members.simps)
       (simp add: parse_chars_quoted skip_ws_Cons ws assms cu_def del: parse_chars.simps)
qed

subsection \<open>Reading an entry and the ledger\<close>

lemma punct:
  "js ''{'' = [0x7B]" "js ''}'' = [0x7D]" "js '':'' = [0x3A]" "js '','' = [0x2C]"
  "js ''['' = [0x5B]" "js '']'' = [0x5D]" "cu CHR '','' = 0x2C"
  by (simp_all add: js_def cu_def)

lemma QuoteJSONString_units: "QuoteJSONString s = 0x22 # quote_units s @ [0x22]"
  by (simp add: QuoteJSONString_def cu_def)

lemma json_of_number_finite: "is_double x \<Longrightarrow> json_of_number x = JNumber (reloaded x)"
  by (cases x) (simp_all add: json_of_number_def reloaded_def is_double_def)

lemma ends_number_punct: "ends_number (0x2C # t)" "ends_number (0x7D # t)"
  by (simp_all add: ends_number_def is_digit_def cu_def)

lemma parse_value_written:
  assumes "storable x" "ends_number t"
  shows "parse_value (Suc n) (stringify_number x @ t) = Parsed (json_of_number x, t)"
proof (cases "is_double x")
  case True
  from parse_value_number [OF parse_stringify_number [OF True assms(2)]] True
  show ?thesis by (simp add: json_of_number_finite)
next
  case False
  with assms(1) have "x = NaN \<or> x = PosInf \<or> x = NegInf" by (simp add: storable_def)
  then have "stringify_number x = js ''null''" "json_of_number x = JNull"
    by (auto simp: stringify_number_def json_of_number_def)
  then show ?thesis using parse_value_null [of n t] by simp
qed

lemma skip_ws_written:
  assumes "storable x" "ends_number t"
  shows "skip_ws (stringify_number x @ t) = stringify_number x @ t"
proof (cases "is_double x")
  case True
  from parse_number_first [OF parse_stringify_number [OF True assms(2)]]
  obtain c r where s: "stringify_number x @ t = c # r" and c: "c = cu CHR ''-'' \<or> is_digit c"
    by (cases "stringify_number x @ t") auto
  show ?thesis unfolding s using digit_or_minus(7) [OF c] by (rule skip_ws_Cons)
next
  case False
  with assms(1) have "x = NaN \<or> x = PosInf \<or> x = NegInf" by (simp add: storable_def)
  then have "stringify_number x = js ''null''"
    by (auto simp: stringify_number_def)
  then show ?thesis by (simp add: js_def cu_def skip_ws_def is_ws_def)
qed

lemma member_string:
  "parse_members (Suc (Suc n)) acc
     (0x22 # quote_units k @ 0x22 # 0x3A # 0x22 # quote_units v @ 0x22 # 0x2C # 0x22 # rest)
   = parse_members (Suc n) (set_property k (JString v) acc) (0x22 # rest)"
proof -
  have ws: "\<not> is_ws 0x22" by (simp add: is_ws_def)
  have "parse_members (Suc (Suc n)) acc
     (0x22 # quote_units k @ 0x22 # 0x3A # (0x22 # quote_units v @ [0x22]) @ 0x2C # 0x22 # rest)
   = parse_members (Suc n) (set_property k (JString v) acc) (skip_ws (0x22 # rest))"
    by (rule parse_members_step) (simp_all add: parse_value_string skip_ws_Cons ws
        del: parse_value.simps)
  then show ?thesis by (simp add: skip_ws_Cons ws del: parse_members.simps)
qed

lemma member_number:
  assumes "storable x"
  shows "parse_members (Suc (Suc n)) acc
     (0x22 # quote_units k @ 0x22 # 0x3A # stringify_number x @ 0x2C # 0x22 # rest)
   = parse_members (Suc n) (set_property k (json_of_number x) acc) (0x22 # rest)"
proof -
  have ws: "\<not> is_ws 0x22" by (simp add: is_ws_def)
  have "parse_members (Suc (Suc n)) acc
     (0x22 # quote_units k @ 0x22 # 0x3A # stringify_number x @ 0x2C # 0x22 # rest)
   = parse_members (Suc n) (set_property k (json_of_number x) acc) (skip_ws (0x22 # rest))"
    by (rule parse_members_step)
       (rule parse_value_written [OF assms ends_number_punct(1)],
        rule skip_ws_written [OF assms ends_number_punct(1)])
  then show ?thesis by (simp add: skip_ws_Cons ws del: parse_members.simps)
qed

lemma member_number_last:
  assumes "storable x"
  shows "parse_members (Suc (Suc n)) acc
     (0x22 # quote_units k @ 0x22 # 0x3A # stringify_number x @ 0x7D # rest)
   = Parsed (JObject (set_property k (json_of_number x) acc), rest)"
  by (rule parse_members_last)
     (rule parse_value_written [OF assms ends_number_punct(2)],
      rule skip_ws_written [OF assms ends_number_punct(2)])

lemma keys_differ:
  "js ''date'' \<noteq> js ''id''"
  "js ''companyName'' \<noteq> js ''id''" "js ''companyName'' \<noteq> js ''date''"
  "js ''hours'' \<noteq> js ''id''" "js ''hours'' \<noteq> js ''date''" "js ''hours'' \<noteq> js ''companyName''"
  "js ''hourlyWage'' \<noteq> js ''id''" "js ''hourlyWage'' \<noteq> js ''date''"
  "js ''hourlyWage'' \<noteq> js ''companyName''" "js ''hourlyWage'' \<noteq> js ''hours''"
  "js ''totalIncome'' \<noteq> js ''id''" "js ''totalIncome'' \<noteq> js ''date''"
  "js ''totalIncome'' \<noteq> js ''companyName''" "js ''totalIncome'' \<noteq> js ''hours''"
  "js ''totalIncome'' \<noteq> js ''hourlyWage''"
  by (simp_all add: js_def cu_def)

lemma set_property_new: "k \<notin> fst ` set ps \<Longrightarrow> set_property k v ps = ps @ [(k, v)]"
  by (simp add: set_property_def)

lemma parse_value_entry:
  assumes "storable_entry e"
  shows "parse_value (Suc (Suc (Suc (Suc (Suc (Suc (Suc (Suc n)))))))) (stringify_entry e @ t)
         = Parsed (json_of_entry e, t)"
proof -
  from assms have s: "storable (hours e)" "storable (hourlyWage e)" "storable (totalIncome e)"
    by (simp_all add: storable_entry_def)
  have ws: "\<not> is_ws 0x22" by (simp add: is_ws_def)
  have "parse_value (Suc (Suc (Suc (Suc (Suc (Suc (Suc (Suc n)))))))) (stringify_entry e @ t)
    = Parsed (JObject (set_property (js ''totalIncome'') (json_of_number (totalIncome e))
        (set_property (js ''hourlyWage'') (json_of_number (hourlyWage e))
        (set_property (js ''hours'') (json_of_number (hours e))
        (set_property (js ''companyName'') (JString (companyName e))
        (set_property (js ''date'') (JString (date e))
        (set_property (js ''id'') (JString (id' e)) [])))))), t)"
    unfolding stringify_entry_def punct QuoteJSONString_units
    apply (subst parse_value.simps)
    apply (simp add: skip_ws_Cons ws cu_def del: parse_value.simps parse_members.simps)
    apply (simp only: member_string member_number [OF s(1)] member_number [OF s(2)]
        member_number_last [OF s(3)])
    done
  then show ?thesis
    by (simp add: set_property_new keys_differ json_of_entry_def)
qed

lemma stringify_entry_first: "\<exists>r. stringify_entry e = 0x7B # r"
  by (simp add: stringify_entry_def punct)

lemma join_comma_first:
  "es \<noteq> [] \<Longrightarrow> \<exists>r. join_comma (map stringify_entry es) = 0x7B # r"
proof (cases es)
  case Nil
  then show "es \<noteq> [] \<Longrightarrow> ?thesis" by simp
next
  case (Cons e es')
  obtain r where r: "stringify_entry e = 0x7B # r" using stringify_entry_first by blast
  show ?thesis unfolding Cons by (cases es') (simp_all add: r)
qed

lemma parse_elements_entries:
  assumes "es \<noteq> []" "\<forall>e \<in> set es. storable_entry e"
  shows "parse_elements (length es + 8 + n) acc (join_comma (map stringify_entry es) @ 0x5D # t)
         = Parsed (JArray (acc @ map json_of_entry es), t)"
  using assms
proof (induction es arbitrary: acc)
  case Nil
  then show ?case by simp
next
  case (Cons e es)
  from Cons.prems have se: "storable_entry e" by simp
  have ws: "\<not> is_ws 0x5D" "\<not> is_ws 0x2C" "\<not> is_ws 0x7B" by (simp_all add: is_ws_def)
  show ?case
  proof (cases es)
    case Nil
    have f: "length (e # es) + 8 + n = Suc (Suc (Suc (Suc (Suc (Suc (Suc (Suc (Suc n))))))))"
      unfolding Nil by simp
    show ?thesis
      unfolding f
      apply (subst parse_elements.simps)
      apply (simp only: Nil list.map join_comma.simps parse_value_entry [OF se])
      apply (simp add: skip_ws_Cons ws cu_def del: parse_value.simps parse_elements.simps)
      done
  next
    case (Cons e' es')
    then have ne: "es \<noteq> []" by simp
    from Cons.prems have st: "\<forall>e \<in> set es. storable_entry e" by simp
    obtain m where m: "length es + 8 + n = Suc (Suc (Suc (Suc (Suc (Suc (Suc (Suc m)))))))"
      by (metis add_Suc_right add.commute add_Suc eval_nat_numeral(2) eval_nat_numeral(3)
          numeral_Bit0 semiring_norm(26) semiring_norm(27) add.assoc Suc_eq_plus1 One_nat_def
          add_2_eq_Suc' numeral_2_eq_2 numeral_3_eq_3 plus_nat.add_0)
    have f: "length (e # es) + 8 + n = Suc (length es + 8 + n)" by simp
    obtain r where r: "join_comma (map stringify_entry es) = 0x7B # r"
      using join_comma_first [OF ne] by blast
    have j: "join_comma (map stringify_entry (e # es)) @ 0x5D # t
        = stringify_entry e @ 0x2C # join_comma (map stringify_entry es) @ 0x5D # t"
      unfolding Cons by (simp add: punct)
    have pv: "parse_value (length es + 8 + n)
        (stringify_entry e @ 0x2C # join_comma (map stringify_entry es) @ 0x5D # t)
      = Parsed (json_of_entry e, 0x2C # join_comma (map stringify_entry es) @ 0x5D # t)"
      unfolding m by (rule parse_value_entry [OF se])
    have sk: "skip_ws (join_comma (map stringify_entry es) @ 0x5D # t)
        = join_comma (map stringify_entry es) @ 0x5D # t"
      unfolding r by (simp add: skip_ws_Cons ws)
    have "parse_elements (length (e # es) + 8 + n) acc
        (join_comma (map stringify_entry (e # es)) @ 0x5D # t)
      = parse_elements (length es + 8 + n) (acc @ [json_of_entry e])
          (join_comma (map stringify_entry es) @ 0x5D # t)"
      unfolding f j
      apply (subst parse_elements.simps)
      apply (simp only: pv)
      apply (simp add: skip_ws_Cons ws sk cu_def del: parse_value.simps parse_elements.simps)
      done
    also have "\<dots> = Parsed (JArray ((acc @ [json_of_entry e]) @ map json_of_entry es), t)"
      by (rule Cons.IH [OF ne st])
    finally show ?thesis by simp
  qed
qed

lemma length_stringify_entry: "4 \<le> length (stringify_entry e)"
  by (simp add: stringify_entry_def punct QuoteJSONString_units)

lemma length_join_comma: "4 * length es \<le> length (join_comma (map stringify_entry es))"
proof (induction es)
  case Nil
  show ?case by simp
next
  case (Cons e es)
  then show ?case using length_stringify_entry [of e] by (cases es) simp_all
qed

lemma JSON_parse_stringify:
  assumes "\<forall>e \<in> set es. storable_entry e"
  shows "JSON_parse (JSON_stringify es) = Inr (JArray (map json_of_entry es))"
proof (cases "es = []")
  case True
  have "parse_value (Suc 4) [0x5B, 0x5D] = Parsed (JArray [], [])"
    by (subst parse_value.simps) (simp add: cu_def skip_ws_def is_ws_def)
  then show ?thesis
    unfolding True
    by (simp add: JSON_parse_def JSON_stringify_def punct skip_ws_def is_ws_def
        del: parse_value.simps)
next
  case False
  have ws: "\<not> is_ws 0x5B" "\<not> is_ws 0x7B" by (simp_all add: is_ws_def)
  obtain r where r: "join_comma (map stringify_entry es) = 0x7B # r"
    using join_comma_first [OF False] by blast
  let ?s = "JSON_stringify es"
  have s: "?s = 0x5B # join_comma (map stringify_entry es) @ 0x5D # []"
    by (simp add: JSON_stringify_def punct)
  from False have "1 \<le> length es" by (cases es) simp_all
  with length_join_comma [of es] have "length es + 8 \<le> 2 * length ?s"
    unfolding s by simp
  then obtain n where n: "2 * length ?s = length es + 8 + n"
    using le_Suc_ex by blast
  have pe: "parse_elements (2 * length ?s) [] (join_comma (map stringify_entry es) @ 0x5D # [])
      = Parsed (JArray ([] @ map json_of_entry es), [])"
    unfolding n by (rule parse_elements_entries [OF False assms])
  define J where "J = join_comma (map stringify_entry es) @ [0x5D]"
  have J: "J = 0x7B # (r @ [0x5D])" by (simp add: J_def r)
  have pv: "parse_value (Suc F) (0x5B # J) = parse_elements F [] J" for F
    unfolding J
    by (subst parse_value.simps)
       (simp add: cu_def skip_ws_Cons ws del: parse_value.simps parse_elements.simps)
  have sJ: "?s = 0x5B # J" by (simp add: s J_def)
  have "skip_ws ?s = 0x5B # J" unfolding sJ by (rule skip_ws_Cons [OF ws(1)])
  then have "parse_value (Suc (2 * length ?s)) (skip_ws ?s) = Parsed (JArray (map json_of_entry es), [])"
    using pv [of "2 * length ?s"] pe by (simp add: J_def del: parse_value.simps parse_elements.simps)
  then show ?thesis by (simp add: JSON_parse_def skip_ws_def)
qed

lemma the_number_json:
  "storable x \<Longrightarrow> the_number (json_of_number x) = (if is_double x then Some (reloaded x) else None)"
  by (cases x) (auto simp: the_number_def json_of_number_def reloaded_def is_double_def
      storable_def)

lemma as_TimeEntry_json:
  assumes "storable_entry e"
  shows "as_TimeEntry (json_of_entry e) = (if finite_entry e then Some (reloaded_entry e) else None)"
proof -
  from assms have s: "storable (hours e)" "storable (hourlyWage e)" "storable (totalIncome e)"
    by (simp_all add: storable_entry_def)
  show ?thesis
    by (simp add: as_TimeEntry_def json_of_entry_def entry_keys_def the_string_def
        the_number_json [OF s(1)] the_number_json [OF s(2)] the_number_json [OF s(3)]
        finite_entry_def reloaded_entry_def)
qed

lemma those_map_Some: "\<forall>x \<in> set xs. f x = Some (g x) \<Longrightarrow> those (map f xs) = Some (map g xs)"
  by (induction xs) simp_all

lemma those_map_None: "\<exists>x \<in> set xs. f x = None \<Longrightarrow> those (map f xs) = None"
  by (induction xs) (auto split: option.splits)

lemma as_TimeEntries_json:
  assumes "\<forall>e \<in> set es. storable_entry e"
  shows "as_TimeEntries (JArray (map json_of_entry es))
         = (if \<forall>e \<in> set es. finite_entry e then Some (map reloaded_entry es) else None)"
proof (cases "\<forall>e \<in> set es. finite_entry e")
  case True
  with assms have "\<forall>e \<in> set es. as_TimeEntry (json_of_entry e) = Some (reloaded_entry e)"
    by (simp add: as_TimeEntry_json)
  from those_map_Some [OF this] True show ?thesis
    by (simp add: as_TimeEntries_def comp_def)
next
  case False
  with assms have "\<exists>e \<in> set es. as_TimeEntry (json_of_entry e) = None"
    by (auto simp: as_TimeEntry_json)
  from those_map_None [OF this] False show ?thesis
    by (simp add: as_TimeEntries_def comp_def)
qed

lemma JSON_stringify_nonempty: "JSON_stringify es \<noteq> []"
  by (simp add: JSON_stringify_def punct)

lemma construct_persist:
  assumes "\<forall>e \<in> set es. storable_entry e"
  shows "construct (persist es st)
         = (if \<forall>e \<in> set es. finite_entry e then Ledger (map reloaded_entry es)
            else Untyped (JArray (map json_of_entry es)))"
  by (simp add: construct_def persist_def initial_entries_def JSON_stringify_nonempty
      JSON_parse_stringify [OF assms] as_TimeEntries_json [OF assms])

lemma finite_storable: "finite_entry e \<Longrightarrow> storable_entry e"
  by (simp add: finite_entry_def storable_entry_def storable_def)

lemma reloaded_entry_same:
  "hours e \<noteq> NegZero \<Longrightarrow> hourlyWage e \<noteq> NegZero \<Longrightarrow> totalIncome e \<noteq> NegZero \<Longrightarrow>
   reloaded_entry e = e"
  by (simp add: reloaded_entry_def reloaded_def)

subsection \<open>The Numbers of the entries that the form creates\<close>

lemma round_half_even_le:
  assumes "x \<le> of_int n"
  shows "round_half_even x \<le> n"
proof (cases "\<lfloor>x\<rfloor> = n")
  case True
  then have "of_int n \<le> x" using of_int_floor_le [of x] by simp
  with assms have "x = of_int n" by simp
  then show ?thesis by simp
next
  case False
  from assms have "\<lfloor>x\<rfloor> \<le> n" by (simp add: floor_le_iff)
  with False have "\<lfloor>x\<rfloor> + 1 \<le> n" by simp
  then show ?thesis by (simp add: round_half_even_def Let_def)
qed

lemma round_half_even_nonneg:
  assumes "0 \<le> x"
  shows "0 \<le> round_half_even x"
proof -
  from assms have "0 \<le> \<lfloor>x\<rfloor>" by simp
  then show ?thesis by (simp add: round_half_even_def Let_def)
qed

lemma is_double_Fin:
  assumes "0 < r" "round_to_double False r = Fin r"
  shows "is_double (Fin (if neg then - r else r))"
proof (cases neg)
  case True
  from assms have "round_to_double True r = Fin (- r)" by (intro round_sign) simp_all
  with assms(1) True show ?thesis by (simp add: is_double_def)
next
  case False
  with assms show ?thesis by (simp add: is_double_def)
qed

lemma round_to_double_storable:
  assumes "0 \<le> a"
  shows "storable (round_to_double neg a)"
proof (cases "a = 0")
  case True
  then show ?thesis
    by (simp add: round_to_double_def signed_zero_def storable_def is_double_def)
next
  case False
  with assms have apos: "0 < a" by simp
  define E where "E = max (ilog2 a) (- 1022)"
  define u where "u = pow2 (E - 52)"
  define M where "M = round_half_even (a / u)"
  define r where "r = of_int M * u"
  have upos: "0 < u" by (simp add: u_def)
  have rd: "round_to_double neg a =
      (if 2 ^ 1024 \<le> r then infinity neg
       else if r = 0 then signed_zero neg else Fin (if neg then - r else r))"
    using False unfolding round_to_double_def Let_def r_def M_def u_def E_def
    by (simp only: if_False)
  have "ilog2 a + 1 \<le> E + 1" by (simp add: E_def)
  then have "pow2 (ilog2 a + 1) \<le> pow2 (E + 1)" by (rule pow2_mono)
  with ilog2_bounds(2) [OF apos] have "a < pow2 (E + 1)" by linarith
  then have "a < 2 ^ 53 * u" by (simp only: pow2_shift(1) u_def)
  then have "a / u < 2 ^ 53" using upos by (simp add: pos_divide_less_eq)
  then have "a / u \<le> of_int (2 ^ 53)" by simp
  then have Mle: "M \<le> 2 ^ 53" unfolding M_def by (rule round_half_even_le)
  from apos upos have "0 \<le> a / u" by simp
  then have M0: "0 \<le> M" unfolding M_def by (rule round_half_even_nonneg)
  show ?thesis
  proof (cases "2 ^ 1024 \<le> r")
    case True
    then show ?thesis by (simp add: rd infinity_def storable_def)
  next
    case big: False
    show ?thesis
    proof (cases "r = 0")
      case True
      with big show ?thesis
        by (simp add: rd signed_zero_def storable_def is_double_def)
    next
      case nz: False
      with M0 upos have Mpos: "0 < M" by (cases "M = 0") (simp_all add: r_def)
      with upos have rpos: "0 < r" by (simp add: r_def)
      from big have fin: "r < 2 ^ 1024" by simp
      have E: "- 1074 \<le> E - 52" "- 1074 \<le> E - 51" by (simp_all add: E_def)
      have "round_to_double False r = Fin r"
      proof (cases "M < 2 ^ 53")
        case True
        from fin have "of_int M * pow2 (E - 52) < 2 ^ 1024" by (simp only: r_def u_def)
        from round_exact [OF Mpos True E(1) this] show ?thesis by (simp only: r_def u_def)
      next
        case False
        with Mle have M: "M = 2 ^ 53" by simp
        have "E - 51 = int 1 + (E - 52)" by simp
        then have "pow2 (E - 51) = pow2 (int 1 + (E - 52))" by simp
        then have "pow2 (E - 51) = 2 * u" by (simp only: pow2_add pow2_nat u_def power_one_right)
        then have r': "r = of_int (2 ^ 52) * pow2 (E - 51)" by (simp add: r_def M)
        have "(0::int) < 2 ^ 52" "(2::int) ^ 52 < 2 ^ 53" by simp_all
        from round_exact [OF this E(2)] fin show ?thesis by (simp only: r' [symmetric])
      qed
      from is_double_Fin [OF rpos this] big nz show ?thesis
        by (simp add: rd storable_def)
    qed
  qed
qed

lemma parseFloat_storable: "storable (parseFloat s)"
proof -
  have "storable (infinity neg)" for neg by (simp add: infinity_def storable_def)
  moreover have "storable NaN" by (simp add: storable_def)
  moreover have "storable (round_to_double neg (of_nat n * pow10 e))" for neg n e
    by (rule round_to_double_storable) (simp add: less_imp_le)
  ultimately show ?thesis by (simp add: parseFloat_def Let_def)
qed

lemma js_mul_storable: "storable (js_mul x y)"
proof -
  have "storable (infinity neg)" for neg by (simp add: infinity_def storable_def)
  moreover have "storable NaN" by (simp add: storable_def)
  moreover have "storable (round_to_double neg (\<bar>val x\<bar> * \<bar>val y\<bar>))" for neg
    by (rule round_to_double_storable) simp
  ultimately show ?thesis by (simp add: js_mul_def)
qed

lemma new_entry_storable: "storable_entry (new_entry c)"
  by (simp add: storable_entry_def new_entry_def parseFloat_storable js_mul_storable)

end
